theory Spec2Isabelle
  imports Main "HOL-Library.AList"
begin

section \<open>JavaScript values and objects\<close>

text \<open>
  The program is untyped JavaScript. The values it handles are modelled by \<open>jsval\<close>:
  \<open>undefined\<close>, \<open>null\<close>, booleans, integer-valued numbers (the program does no
  arithmetic), strings, plain objects, and a thrown \<open>TypeError\<close> instance. A plain object
  is its list of own properties in insertion order, which is the order in which JavaScript
  enumerates keys that are not array indices (all the keys the program names are such).
  Arrays and functions do not occur in the authentication code and are not represented.
\<close>

datatype jsval =
    JUndefined
  | JNull
  | JBool bool
  | JNum int
  | JStr string
  | JObj "(string \<times> jsval) list"
  | JTypeError

type_synonym obj = "(string \<times> jsval) list"

text \<open>\<open>o.k\<close> on an object: the value of the property, \<open>undefined\<close> when it is missing.\<close>

definition property :: "obj \<Rightarrow> string \<Rightarrow> jsval" where
  "property ob k = (case map_of ob k of None \<Rightarrow> JUndefined | Some v \<Rightarrow> v)"

text \<open>
  \<open>v.k\<close> (and the destructuring pattern \<open>{k} = v\<close>) on any value: reading a property of
  \<open>undefined\<close> or \<open>null\<close> throws a \<open>TypeError\<close> (\<open>Inl\<close>). The names the program
  reads (\<open>payload\<close>, \<open>email\<close>, \<open>password\<close>, \<open>firstName\<close>, \<open>lastName\<close>,
  \<open>data\<close>, \<open>accessToken\<close>, \<open>user\<close>) are not properties of a primitive or of an
  error object and are not inherited from \<open>Object.prototype\<close>, so a read that finds no
  own property gives \<open>undefined\<close>.
\<close>

fun member :: "jsval \<Rightarrow> string \<Rightarrow> jsval + jsval" where
  "member JUndefined k = Inl JTypeError"
| "member JNull k = Inl JTypeError"
| "member (JObj ps) k = Inr (property ps k)"
| "member v k = Inr JUndefined"

text \<open>JavaScript truthiness, as used by \<open>if (success)\<close> and \<open>error &&\<close> in the components.\<close>

fun truthy :: "jsval \<Rightarrow> bool" where
  "truthy JUndefined = False"
| "truthy JNull = False"
| "truthy (JBool b) = b"
| "truthy (JNum n) = (n \<noteq> 0)"
| "truthy (JStr s) = (s \<noteq> [])"
| "truthy (JObj ps) = True"
| "truthy JTypeError = True"

text \<open>Decimal rendering of an index, for the keys of a spread string.\<close>

function string_of_nat :: "nat \<Rightarrow> string" where
  "string_of_nat n =
     (if n < 10 then [char_of (48 + n)]
      else string_of_nat (n div 10) @ [char_of (48 + n mod 10)])"
  by pat_completeness auto
termination
  by (relation "measure id") auto

text \<open>
  The own enumerable properties that \<open>...v\<close> copies: those of an object, the indexed
  characters of a string, nothing for any other value (\<open>{...undefined}\<close> is \<open>{}\<close>).
\<close>

fun own_props :: "jsval \<Rightarrow> obj" where
  "own_props (JObj ps) = ps"
| "own_props (JStr s) = map (\<lambda>(i, c). (string_of_nat i, JStr [c])) (enumerate 0 s)"
| "own_props v = []"

text \<open>
  An object literal defines its properties from left to right; defining a key that is
  already there replaces its value in place, a new key goes to the end. \<open>spread_into acc src\<close>
  is the literal \<open>{...acc, ...src}\<close>.
\<close>

definition spread_into :: "obj \<Rightarrow> obj \<Rightarrow> obj" where
  "spread_into acc src = foldl (\<lambda>a (k, v). AList.update k v a) acc src"


section \<open>Action types and action creators (authActionTypes.js, authActions.js)\<close>

definition LOG_IN_START :: string where "LOG_IN_START = ''LOG_IN_START''"
definition LOG_IN_SUCCESS :: string where "LOG_IN_SUCCESS = ''LOG_IN_SUCCESS''"
definition LOG_IN_FAILURE :: string where "LOG_IN_FAILURE = ''LOG_IN_FAILURE''"
definition REGISTER_START :: string where "REGISTER_START = ''REGISTER_START''"
definition REGISTER_SUCCESS :: string where "REGISTER_SUCCESS = ''REGISTER_SUCCESS''"
definition REGISTER_FAILURE :: string where "REGISTER_FAILURE = ''REGISTER_FAILURE''"
definition LOG_OUT :: string where "LOG_OUT = ''LOG_OUT''"

lemmas types_defs =
  LOG_IN_START_def LOG_IN_SUCCESS_def LOG_IN_FAILURE_def REGISTER_START_def
  REGISTER_SUCCESS_def REGISTER_FAILURE_def LOG_OUT_def

text \<open>An action is a plain object with a \<open>type\<close> and, except for \<open>logOut\<close>, a \<open>payload\<close>.\<close>

definition logInStart :: "jsval \<Rightarrow> obj" where
  "logInStart credentials = [(''type'', JStr LOG_IN_START), (''payload'', credentials)]"

definition logInSuccess :: "jsval \<Rightarrow> obj" where
  "logInSuccess user = [(''type'', JStr LOG_IN_SUCCESS), (''payload'', user)]"

definition logInFailure :: "jsval \<Rightarrow> obj" where
  "logInFailure error = [(''type'', JStr LOG_IN_FAILURE), (''payload'', error)]"

definition registerStart :: "jsval \<Rightarrow> obj" where
  "registerStart credentials = [(''type'', JStr REGISTER_START), (''payload'', credentials)]"

definition registerSuccess :: "jsval \<Rightarrow> obj" where
  "registerSuccess user = [(''type'', JStr REGISTER_SUCCESS), (''payload'', user)]"

definition registerFailure :: "jsval \<Rightarrow> obj" where
  "registerFailure error = [(''type'', JStr REGISTER_FAILURE), (''payload'', error)]"

definition logOut :: obj where
  "logOut = [(''type'', JStr LOG_OUT)]"

lemmas creators_defs =
  logInStart_def logInSuccess_def logInFailure_def registerStart_def registerSuccess_def
  registerFailure_def logOut_def


section \<open>The reducer (authReducer.js)\<close>

definition INITIAL_STATE :: obj where
  "INITIAL_STATE = [(''currentUser'', JNull), (''error'', JNull)]"

text \<open>
  \<open>authReducer (state = INITIAL_STATE, action)\<close>: the state argument is \<open>None\<close> when
  the caller passes \<open>undefined\<close>, and the default parameter then supplies
  \<open>INITIAL_STATE\<close>. The \<open>switch\<close> compares \<open>action.type\<close> with the type constants
  by strict equality, in the order of the source. The literal \<open>{...state, k: v}\<close> is the
  copy of \<open>state\<close> in which \<open>k\<close> holds \<open>v\<close> (lemma \<open>spread_literal\<close> below).
\<close>

definition default_state :: "obj option \<Rightarrow> obj" where
  "default_state state0 = (case state0 of None \<Rightarrow> INITIAL_STATE | Some s \<Rightarrow> s)"

definition authReducer :: "obj option \<Rightarrow> obj \<Rightarrow> obj" where
  "authReducer state0 action =
     (let state = default_state state0;
          ty = property action ''type''
      in if ty = JStr LOG_IN_SUCCESS then
           AList.update ''error'' JNull
             (AList.update ''currentUser'' (property action ''payload'') state)
         else if ty = JStr LOG_IN_FAILURE \<or> ty = JStr REGISTER_FAILURE then
           AList.update ''error'' (property action ''payload'') state
         else if ty = JStr LOG_OUT then INITIAL_STATE
         else if ty = JStr REGISTER_SUCCESS then
           AList.update ''registerSuccess'' (JBool True) state
         else state)"

text \<open>
  The store (\<open>createStore\<close> without a preloaded state) holds the result of the reducer on
  an absent state, and from then on replaces it by the reducer's result for every
  dispatched action.
\<close>

definition reduce_all :: "obj \<Rightarrow> obj list \<Rightarrow> obj" where
  "reduce_all s acts = foldl (\<lambda>st a. authReducer (Some st) a) s acts"


section \<open>The reducer on a heap of objects\<close>

text \<open>
  Whether the reducer mutates its input, and whether the object it returns is a new one,
  are questions about object identity. Here the state objects live in a heap, an object's
  reference being its index; an object literal allocates a fresh object at the end.
  \<open>INITIAL_STATE\<close> is a module-level constant: one object, at the reference \<open>init\<close>.
  The code never holds a dangling reference, so the reducer is only called with
  references inside the heap.
\<close>

type_synonym ref = nat
type_synonym heap = "obj list"

definition alloc :: "heap \<Rightarrow> obj \<Rightarrow> heap \<times> ref" where
  "alloc h ob = (h @ [ob], length h)"

definition authReducer_heap :: "ref \<Rightarrow> heap \<Rightarrow> ref option \<Rightarrow> obj \<Rightarrow> heap \<times> ref" where
  "authReducer_heap init h state0 action =
     (let state = (case state0 of None \<Rightarrow> init | Some r \<Rightarrow> r);
          ty = property action ''type''
      in if ty = JStr LOG_IN_SUCCESS then
           alloc h (AList.update ''error'' JNull
             (AList.update ''currentUser'' (property action ''payload'') (h ! state)))
         else if ty = JStr LOG_IN_FAILURE \<or> ty = JStr REGISTER_FAILURE then
           alloc h (AList.update ''error'' (property action ''payload'') (h ! state))
         else if ty = JStr LOG_OUT then (h, init)
         else if ty = JStr REGISTER_SUCCESS then
           alloc h (AList.update ''registerSuccess'' (JBool True) (h ! state))
         else (h, state))"

text \<open>The actions for which the reducer builds an object literal.\<close>

definition updating :: "obj \<Rightarrow> bool" where
  "updating action =
     (property action ''type'' = JStr LOG_IN_SUCCESS \<or> property action ''type'' = JStr LOG_IN_FAILURE
      \<or> property action ''type'' = JStr REGISTER_FAILURE
      \<or> property action ''type'' = JStr REGISTER_SUCCESS)"


section \<open>The API calls (authSagas.js: logIn, register)\<close>

text \<open>
  \<open>axios.post (url, body)\<close> is the external capability. A call issues a request at once and
  returns a promise; the promise later settles, rejected with an error (\<open>Inl\<close>) or
  fulfilled with a response (\<open>Inr\<close>). The async functions \<open>logIn\<close> and \<open>register\<close>
  are each split at their \<open>await\<close>: the request they issue when called, and what their
  own promise settles to once the request's promise has settled.
\<close>

type_synonym request = "string \<times> obj"
type_synonym outcome = "jsval + jsval"

definition logIn_request :: "jsval \<Rightarrow> jsval \<Rightarrow> request" where
  "logIn_request email password = (''/login'', [(''email'', email), (''password'', password)])"

text \<open>
  \<open>return { token: response.data.accessToken, ...response.data.user }\<close>: a read of a
  property of \<open>undefined\<close> or \<open>null\<close> throws, which rejects the promise of \<open>logIn\<close>.
  The user object lists \<open>token\<close> first and then the properties of \<open>user\<close>; when \<open>user\<close>
  has array-index keys (a string has), JavaScript enumerates those before \<open>token\<close>. Only
  the order of enumeration differs there, no property read does.
\<close>

definition logIn_result :: "outcome \<Rightarrow> outcome" where
  "logIn_result oc =
     (case oc of
        Inl err \<Rightarrow> Inl err
      | Inr response \<Rightarrow>
          (case member response ''data'' of
             Inl e \<Rightarrow> Inl e
           | Inr data \<Rightarrow>
               (case member data ''accessToken'' of
                  Inl e \<Rightarrow> Inl e
                | Inr accessToken \<Rightarrow>
                    (case member data ''user'' of
                       Inl e \<Rightarrow> Inl e
                     | Inr user \<Rightarrow>
                         Inr (JObj (spread_into [(''token'', accessToken)] (own_props user)))))))"

definition register_request :: "jsval \<Rightarrow> jsval \<Rightarrow> jsval \<Rightarrow> jsval \<Rightarrow> request" where
  "register_request email password firstName lastName =
     (''/register'', [(''email'', email), (''password'', password),
                      (''firstName'', firstName), (''lastName'', lastName)])"

definition register_result :: "outcome \<Rightarrow> outcome" where
  "register_result oc = (case oc of Inl err \<Rightarrow> Inl err | Inr response \<Rightarrow> Inr JUndefined)"


section \<open>The worker sagas (authSagas.js)\<close>

text \<open>
  A worker saga is a generator that yields one promise and then one \<open>put\<close>. It is modelled
  by what happens when it is called and run to its first \<open>yield\<close> (\<open>start\<close>: the parameter
  destructuring throws, \<open>Inl\<close>, or a request is issued and the generator is suspended with
  its local variables, \<open>Inr\<close>), and by the actions it \<open>put\<close>s, in order, once it is resumed
  with the outcome of the request (\<open>resume\<close>).
\<close>

record worker =
  start :: "obj \<Rightarrow> jsval + (request \<times> obj)"
  resume :: "obj \<Rightarrow> outcome \<Rightarrow> obj list"

text \<open>The parameter pattern \<open>{ payload: { email, password } }\<close>.\<close>

definition logIn_params :: "obj \<Rightarrow> jsval + (jsval \<times> jsval)" where
  "logIn_params action =
     (case member (property action ''payload'') ''email'' of
        Inl e \<Rightarrow> Inl e
      | Inr email \<Rightarrow>
          (case member (property action ''payload'') ''password'' of
             Inl e \<Rightarrow> Inl e
           | Inr password \<Rightarrow> Inr (email, password)))"

text \<open>
  \<open>try { const user = yield logIn(email, password); yield put(logInSuccess(user)); }
   catch (error) { yield put(logInFailure(error)); }\<close>
\<close>

definition logInWithCredentials :: worker where
  "logInWithCredentials =
     \<lparr> start = (\<lambda>action.
         case logIn_params action of
           Inl e \<Rightarrow> Inl e
         | Inr (email, password) \<Rightarrow>
             Inr (logIn_request email password, [(''email'', email), (''password'', password)])),
       resume = (\<lambda>locals oc.
         case logIn_result oc of
           Inr user \<Rightarrow> [logInSuccess user]
         | Inl error \<Rightarrow> [logInFailure error]) \<rparr>"

text \<open>The parameter pattern \<open>{ payload: { email, password, firstName, lastName } }\<close>.\<close>

definition register_params :: "obj \<Rightarrow> jsval + obj" where
  "register_params action =
     (case member (property action ''payload'') ''email'' of
        Inl e \<Rightarrow> Inl e
      | Inr email \<Rightarrow>
     (case member (property action ''payload'') ''password'' of
        Inl e \<Rightarrow> Inl e
      | Inr password \<Rightarrow>
     (case member (property action ''payload'') ''firstName'' of
        Inl e \<Rightarrow> Inl e
      | Inr firstName \<Rightarrow>
     (case member (property action ''payload'') ''lastName'' of
        Inl e \<Rightarrow> Inl e
      | Inr lastName \<Rightarrow>
          Inr [(''email'', email), (''password'', password),
               (''firstName'', firstName), (''lastName'', lastName)]))))"

text \<open>
  \<open>try { yield register(email, password, firstName, lastName);
         yield put(registerSuccess({ email, password, firstName, lastName })); }
   catch (error) { yield put(registerFailure(error)); }\<close>
\<close>

definition registerWithCredentials :: worker where
  "registerWithCredentials =
     \<lparr> start = (\<lambda>action.
         case register_params action of
           Inl e \<Rightarrow> Inl e
         | Inr locals \<Rightarrow>
             Inr (register_request (property locals ''email'') (property locals ''password'')
                    (property locals ''firstName'') (property locals ''lastName''), locals)),
       resume = (\<lambda>locals oc.
         case register_result oc of
           Inr u \<Rightarrow> [registerSuccess (JObj
                      [(''email'', property locals ''email''),
                       (''password'', property locals ''password''),
                       (''firstName'', property locals ''firstName''),
                       (''lastName'', property locals ''lastName'')])]
         | Inl error \<Rightarrow> [registerFailure error]) \<rparr>"

text \<open>
  \<open>yield logInWithCredentials({ payload: { email, password } })\<close>: the saga destructures
  its own argument, calls the login worker on a new object and runs the generator it gets
  as its own body.
\<close>

definition logInAfterRegister :: worker where
  "logInAfterRegister =
     \<lparr> start = (\<lambda>action.
         case logIn_params action of
           Inl e \<Rightarrow> Inl e
         | Inr (email, password) \<Rightarrow>
             start logInWithCredentials
               [(''payload'', JObj [(''email'', email), (''password'', password)])]),
       resume = resume logInWithCredentials \<rparr>"


section \<open>The watchers and the saga middleware (authSagas.js, rootSaga.js, store/index.js)\<close>

text \<open>
  \<open>authSagas\<close> runs three watchers side by side, each a \<open>takeLatest (pattern, worker)\<close>.
  \<open>takeLatest\<close>, \<open>fork\<close>, \<open>cancel\<close> and \<open>put\<close> are primitives of the redux-saga
  library; the definitions below give them the behaviour the library documents, as a
  transition system whose events are the dispatch of an action from outside and the
  settling of a request.
\<close>

datatype watcher = OnLogInStart | OnRegisterStart | OnRegisterSuccess

fun pattern :: "watcher \<Rightarrow> string" where
  "pattern OnLogInStart = LOG_IN_START"
| "pattern OnRegisterStart = REGISTER_START"
| "pattern OnRegisterSuccess = REGISTER_SUCCESS"

fun worker_of :: "watcher \<Rightarrow> worker" where
  "worker_of OnLogInStart = logInWithCredentials"
| "worker_of OnRegisterStart = registerWithCredentials"
| "worker_of OnRegisterSuccess = logInAfterRegister"

definition authSagas :: "watcher list" where
  "authSagas = [OnLogInStart, OnRegisterStart, OnRegisterSuccess]"

text \<open>
  The state of the running application. \<open>store\<close> is the state held by the Redux store.
  \<open>tasks w\<close> is the task that watcher \<open>w\<close> forked last, while it is suspended on its
  request: its identifier and its local variables. \<open>alive\<close> tells whether the saga tree
  is running. \<open>requests\<close> logs every request issued, with the task that issued it;
  \<open>dispatched\<close> logs every action that reached the store, with the task that \<open>put\<close> it
  (\<open>None\<close> for an action dispatched from outside the sagas).
\<close>

record runner =
  store :: obj
  alive :: bool
  next_id :: nat
  tasks :: "watcher \<Rightarrow> (nat \<times> obj) option"
  requests :: "(nat \<times> request) list"
  dispatched :: "(nat option \<times> obj) list"

text \<open>
  An error thrown by a forked task that nothing catches aborts its parent, the watcher,
  and with it \<open>authSagas\<close> and \<open>rootSaga\<close>: every task is cancelled and no saga takes an
  action any more.
\<close>

definition abort :: "runner \<Rightarrow> runner" where
  "abort r = r\<lparr>alive := False, tasks := (\<lambda>w. None)\<rparr>"

text \<open>
  Modelled from the spec: \<open>takeLatest\<close> is redux-saga's, and its code is not among the
  sources of the repository; the spec and the source's own text say what it does (a new
  start of the same kind cancels the invocation still pending, whose result is then never
  dispatched). \<open>takeLatest (pattern, worker)\<close> on an action put on the channel: when the
  type matches, it cancels the task it forked before, if that is still running (the task is
  dropped: it is never resumed, whatever its request settles to), and forks the worker on
  the action. The worker runs at once up to its first \<open>yield\<close>.
\<close>

definition takeLatest :: "watcher \<Rightarrow> obj \<Rightarrow> runner \<Rightarrow> runner" where
  "takeLatest w action r =
     (if alive r \<and> property action ''type'' = JStr (pattern w) then
        (case start (worker_of w) action of
           Inl e \<Rightarrow> abort r
         | Inr (req, locals) \<Rightarrow>
             r\<lparr>tasks := (tasks r)(w := Some (next_id r, locals)),
               next_id := Suc (next_id r),
               requests := requests r @ [(next_id r, req)]\<rparr>)
      else r)"

text \<open>
  A dispatch through the middleware chain: the saga middleware first passes the action on
  (\<open>next(action)\<close>, which reaches the reducer), then puts it on the channel of the sagas.
  The actions are those the program dispatches, each with a string for a \<open>type\<close>. Two
  actions that the program never dispatches are not modelled: one without a \<open>type\<close>, which
  the store refuses before the reducer runs, and the \<open>END\<close> action of redux-saga, which
  closes the channel and stops the watchers.
\<close>

definition dispatch :: "nat option \<Rightarrow> obj \<Rightarrow> runner \<Rightarrow> runner" where
  "dispatch origin action r =
     foldl (\<lambda>r' w. takeLatest w action r')
       (r\<lparr>store := authReducer (Some (store r)) action,
          dispatched := dispatched r @ [(origin, action)]\<rparr>)
       authSagas"

text \<open>
  The request of task \<open>i\<close> settles. If \<open>i\<close> is still the current task of a watcher, the
  task is resumed and its actions are dispatched; the task is then finished. The result of
  a request whose task was cancelled or has finished is ignored.
\<close>

fun current_in :: "watcher list \<Rightarrow> runner \<Rightarrow> nat \<Rightarrow> (watcher \<times> obj) option" where
  "current_in [] r i = None"
| "current_in (w # ws) r i =
     (case tasks r w of
        None \<Rightarrow> current_in ws r i
      | Some (j, locals) \<Rightarrow> if j = i then Some (w, locals) else current_in ws r i)"

definition current :: "runner \<Rightarrow> nat \<Rightarrow> (watcher \<times> obj) option" where
  "current r i = current_in authSagas r i"

definition dispatch_all :: "nat option \<Rightarrow> obj list \<Rightarrow> runner \<Rightarrow> runner" where
  "dispatch_all origin acts r = foldl (\<lambda>r' a. dispatch origin a r') r acts"

definition settle :: "nat \<Rightarrow> outcome \<Rightarrow> runner \<Rightarrow> runner" where
  "settle i oc r =
     (case current r i of
        None \<Rightarrow> r
      | Some (w, locals) \<Rightarrow>
          dispatch_all (Some i) (resume (worker_of w) locals oc)
            (r\<lparr>tasks := (tasks r)(w := None)\<rparr>))"

datatype event = Dispatch obj | Settle nat outcome

fun step :: "runner \<Rightarrow> event \<Rightarrow> runner" where
  "step r (Dispatch action) = dispatch None action r"
| "step r (Settle i oc) = settle i oc r"

definition run :: "runner \<Rightarrow> event list \<Rightarrow> runner" where
  "run r evs = foldl step r evs"

text \<open>
  \<open>createStore\<close> initialises the state with the reducer's result on an absent state and
  its own initial action; \<open>sagaMiddleware.run(rootSaga)\<close> then starts the watchers.
\<close>

definition redux_INIT :: obj where
  "redux_INIT = [(''type'', JStr ''@@redux/INIT'')]"

definition init_runner :: runner where
  "init_runner =
     \<lparr> store = authReducer None redux_INIT, alive = True, next_id = 0,
       tasks = (\<lambda>w. None), requests = [], dispatched = [] \<rparr>"

text \<open>The actions a task has put, and the first outcome a trace of events gives a task.\<close>

definition puts_of :: "nat \<Rightarrow> runner \<Rightarrow> obj list" where
  "puts_of i r = map snd (filter (\<lambda>(origin, a). origin = Some i) (dispatched r))"

fun first_outcome :: "nat \<Rightarrow> event list \<Rightarrow> outcome option" where
  "first_outcome i [] = None"
| "first_outcome i (Dispatch a # evs) = first_outcome i evs"
| "first_outcome i (Settle j oc # evs) = (if j = i then Some oc else first_outcome i evs)"

definition nullish :: "jsval \<Rightarrow> bool" where
  "nullish v = (v = JUndefined \<or> v = JNull)"

text \<open>
  An action on which a worker's parameter destructuring throws: one of the three watched
  types with \<open>undefined\<close> or \<open>null\<close> for a payload.
\<close>

definition crashes :: "obj \<Rightarrow> bool" where
  "crashes action =
     (nullish (property action ''payload'')
      \<and> (property action ''type'' = JStr LOG_IN_START
           \<or> property action ''type'' = JStr REGISTER_START
           \<or> property action ''type'' = JStr REGISTER_SUCCESS))"

text \<open>
  An event that leaves the current task of watcher \<open>w\<close> alone: a request settling, or the
  dispatch of an action that \<open>w\<close> does not take and on which no worker throws.
\<close>

fun quiet :: "watcher \<Rightarrow> event \<Rightarrow> bool" where
  "quiet w (Settle j oc) = True"
| "quiet w (Dispatch action) = (property action ''type'' \<noteq> JStr (pattern w) \<and> \<not> crashes action)"


text \<open>
  The two lanes of the spec. The terminal actions of the login lane are put by the tasks of
  two watchers: the one on \<open>LOG_IN_START\<close> and the one on \<open>REGISTER_SUCCESS\<close>, whose worker
  runs the login worker.
\<close>

datatype lane = Login | Register

fun lane_of :: "watcher \<Rightarrow> lane" where
  "lane_of OnLogInStart = Login"
| "lane_of OnRegisterStart = Register"
| "lane_of OnRegisterSuccess = Login"

fun terminal :: "lane \<Rightarrow> obj \<Rightarrow> bool" where
  "terminal Login action =
     (property action ''type'' = JStr LOG_IN_SUCCESS \<or> property action ''type'' = JStr LOG_IN_FAILURE)"
| "terminal Register action =
     (property action ''type'' = JStr REGISTER_SUCCESS
      \<or> property action ''type'' = JStr REGISTER_FAILURE)"

text \<open>The terminal actions of a lane that have reached the store, in order, whoever put them.\<close>

definition observed :: "lane \<Rightarrow> runner \<Rightarrow> (nat option \<times> obj) list" where
  "observed ln r = filter (\<lambda>(origin, a). terminal ln a) (dispatched r)"

text \<open>
  An event after which the terminal actions of a lane can only come from the task its Start
  watcher holds: a request settling, or the dispatch from outside of an action that is not
  a terminal action of the lane, that forks no task putting one, and on which no worker
  throws.
\<close>

fun calm :: "lane \<Rightarrow> event \<Rightarrow> bool" where
  "calm ln (Settle j oc) = True"
| "calm Login (Dispatch action) =
     (property action ''type'' \<noteq> JStr LOG_IN_START \<and> property action ''type'' \<noteq> JStr REGISTER_START
      \<and> property action ''type'' \<noteq> JStr REGISTER_SUCCESS \<and> \<not> terminal Login action)"
| "calm Register (Dispatch action) =
     (property action ''type'' \<noteq> JStr REGISTER_START \<and> \<not> terminal Register action
      \<and> \<not> crashes action)"


section \<open>Invariants of the running application\<close>

text \<open>
  \<open>wf\<close>: the identifiers of the suspended tasks are below \<open>next_id\<close> and belong to one
  watcher each. \<open>idle i\<close>: identifier \<open>i\<close> has been given out and is not the current task
  of any watcher (the task has finished or was cancelled). \<open>logged\<close>: only tasks that were
  forked have put actions.
\<close>

definition wf :: "runner \<Rightarrow> bool" where
  "wf r = ((\<forall>w i l. tasks r w = Some (i, l) \<longrightarrow> i < next_id r)
         \<and> (\<forall>w w' i l l'. tasks r w = Some (i, l) \<longrightarrow> tasks r w' = Some (i, l') \<longrightarrow> w = w'))"

definition idle :: "nat \<Rightarrow> runner \<Rightarrow> bool" where
  "idle i r = (i < next_id r \<and> (\<forall>w l. tasks r w \<noteq> Some (i, l)))"

definition logged :: "runner \<Rightarrow> bool" where
  "logged r = (\<forall>i a. (Some i, a) \<in> set (dispatched r) \<longrightarrow> i < next_id r)"


section \<open>Properties of objects\<close>

lemma update_fresh: "k \<notin> fst ` set acc \<Longrightarrow> AList.update k v acc = acc @ [(k, v)]"
  by (induction acc) auto

lemma spread_into_fresh:
  "distinct (map fst src) \<Longrightarrow> fst ` set acc \<inter> fst ` set src = {} \<Longrightarrow>
   spread_into acc src = acc @ src"
  unfolding spread_into_def
proof (induction src arbitrary: acc)
  case Nil
  show ?case by simp
next
  case (Cons p src)
  obtain k v where p: "p = (k, v)" by (cases p)
  from Cons.prems p have fresh: "k \<notin> fst ` set acc" by auto
  from Cons.prems p have "distinct (map fst src)"
    and "fst ` set (acc @ [(k, v)]) \<inter> fst ` set src = {}" by auto
  then have "foldl (\<lambda>a (k, v). AList.update k v a) (acc @ [(k, v)]) src = (acc @ [(k, v)]) @ src"
    by (rule Cons.IH)
  then show ?case by (simp add: p update_fresh [OF fresh])
qed

text \<open>For an object (whose keys are distinct), \<open>{...state, k: v}\<close> is \<open>state\<close> with \<open>k\<close> set.\<close>

lemma spread_literal:
  "distinct (map fst state) \<Longrightarrow>
   AList.update k v (spread_into [] state) = AList.update k v state"
  by (simp add: spread_into_fresh)

lemma property_update [simp]:
  "property (AList.update k v s) k' = (if k' = k then v else property s k')"
  by (simp add: property_def update_conv')

lemma property_Nil [simp]: "property [] k = JUndefined"
  by (simp add: property_def)

lemma property_Cons [simp]: "property ((k, v) # ps) k' = (if k' = k then v else property ps k')"
  by (simp add: property_def)

lemma type_of_creators [simp]:
  "property (logInStart c) ''type'' = JStr LOG_IN_START"
  "property (logInSuccess u) ''type'' = JStr LOG_IN_SUCCESS"
  "property (logInFailure e) ''type'' = JStr LOG_IN_FAILURE"
  "property (registerStart c) ''type'' = JStr REGISTER_START"
  "property (registerSuccess c) ''type'' = JStr REGISTER_SUCCESS"
  "property (registerFailure e) ''type'' = JStr REGISTER_FAILURE"
  "property logOut ''type'' = JStr LOG_OUT"
  by (simp_all add: creators_defs property_def)

lemma payload_of_creators [simp]:
  "property (logInStart c) ''payload'' = c"
  "property (logInSuccess u) ''payload'' = u"
  "property (logInFailure e) ''payload'' = e"
  "property (registerStart c) ''payload'' = c"
  "property (registerSuccess c) ''payload'' = c"
  "property (registerFailure e) ''payload'' = e"
  "property logOut ''payload'' = JUndefined"
  by (simp_all add: creators_defs property_def)

lemma types_distinct [simp]:
  "LOG_IN_START \<noteq> LOG_IN_SUCCESS" "LOG_IN_START \<noteq> LOG_IN_FAILURE"
  "LOG_IN_START \<noteq> REGISTER_START" "LOG_IN_START \<noteq> REGISTER_SUCCESS"
  "LOG_IN_START \<noteq> REGISTER_FAILURE" "LOG_IN_START \<noteq> LOG_OUT"
  "LOG_IN_SUCCESS \<noteq> LOG_IN_START" "LOG_IN_SUCCESS \<noteq> LOG_IN_FAILURE"
  "LOG_IN_SUCCESS \<noteq> REGISTER_START" "LOG_IN_SUCCESS \<noteq> REGISTER_SUCCESS"
  "LOG_IN_SUCCESS \<noteq> REGISTER_FAILURE" "LOG_IN_SUCCESS \<noteq> LOG_OUT"
  "LOG_IN_FAILURE \<noteq> LOG_IN_START" "LOG_IN_FAILURE \<noteq> LOG_IN_SUCCESS"
  "LOG_IN_FAILURE \<noteq> REGISTER_START" "LOG_IN_FAILURE \<noteq> REGISTER_SUCCESS"
  "LOG_IN_FAILURE \<noteq> REGISTER_FAILURE" "LOG_IN_FAILURE \<noteq> LOG_OUT"
  "REGISTER_START \<noteq> LOG_IN_START" "REGISTER_START \<noteq> LOG_IN_SUCCESS"
  "REGISTER_START \<noteq> LOG_IN_FAILURE" "REGISTER_START \<noteq> REGISTER_SUCCESS"
  "REGISTER_START \<noteq> REGISTER_FAILURE" "REGISTER_START \<noteq> LOG_OUT"
  "REGISTER_SUCCESS \<noteq> LOG_IN_START" "REGISTER_SUCCESS \<noteq> LOG_IN_SUCCESS"
  "REGISTER_SUCCESS \<noteq> LOG_IN_FAILURE" "REGISTER_SUCCESS \<noteq> REGISTER_START"
  "REGISTER_SUCCESS \<noteq> REGISTER_FAILURE" "REGISTER_SUCCESS \<noteq> LOG_OUT"
  "REGISTER_FAILURE \<noteq> LOG_IN_START" "REGISTER_FAILURE \<noteq> LOG_IN_SUCCESS"
  "REGISTER_FAILURE \<noteq> LOG_IN_FAILURE" "REGISTER_FAILURE \<noteq> REGISTER_START"
  "REGISTER_FAILURE \<noteq> REGISTER_SUCCESS" "REGISTER_FAILURE \<noteq> LOG_OUT"
  "LOG_OUT \<noteq> LOG_IN_START" "LOG_OUT \<noteq> LOG_IN_SUCCESS" "LOG_OUT \<noteq> LOG_IN_FAILURE"
  "LOG_OUT \<noteq> REGISTER_START" "LOG_OUT \<noteq> REGISTER_SUCCESS" "LOG_OUT \<noteq> REGISTER_FAILURE"
  by (simp_all add: types_defs)


section \<open>Properties of the reducer\<close>

lemma authReducer_currentUser:
  "property (authReducer s a) ''currentUser'' =
     (if property a ''type'' = JStr LOG_IN_SUCCESS then property a ''payload''
      else if property a ''type'' = JStr LOG_OUT then JNull
      else property (default_state s) ''currentUser'')"
  by (simp add: authReducer_def Let_def INITIAL_STATE_def property_def [of "[_, _]"])

lemma authReducer_error:
  "property (authReducer s a) ''error'' =
     (if property a ''type'' = JStr LOG_IN_SUCCESS then JNull
      else if property a ''type'' = JStr LOG_IN_FAILURE
              \<or> property a ''type'' = JStr REGISTER_FAILURE then property a ''payload''
      else if property a ''type'' = JStr LOG_OUT then JNull
      else property (default_state s) ''error'')"
  by (simp add: authReducer_def Let_def INITIAL_STATE_def property_def [of "[_, _]"])

lemma authReducer_registerSuccess:
  "property (authReducer s a) ''registerSuccess'' =
     (if property a ''type'' = JStr LOG_OUT then JUndefined
      else if property a ''type'' = JStr REGISTER_SUCCESS then JBool True
      else property (default_state s) ''registerSuccess'')"
  by (simp add: authReducer_def Let_def INITIAL_STATE_def property_def [of "[_, _]"])

lemma authReducer_logOut: "authReducer s logOut = INITIAL_STATE"
  by (simp add: authReducer_def Let_def)

lemma INITIAL_STATE_registerSuccess: "property INITIAL_STATE ''registerSuccess'' = JUndefined"
  by (simp add: INITIAL_STATE_def property_def)

text \<open>
  C6. For every user payload \<open>u\<close> and error payload \<open>e\<close>, and whatever the state before:
  after \<open>LoginSuccess(u)\<close> and then \<open>LoginFailure(e)\<close> the state has \<open>currentUser = u\<close>
  and \<open>error = e\<close>.
\<close>

theorem login_failure_keeps_user:
  "property (authReducer (Some (authReducer s (logInSuccess u))) (logInFailure e))
      ''currentUser'' = u
   \<and> property (authReducer (Some (authReducer s (logInSuccess u))) (logInFailure e))
      ''error'' = e"
  by (simp add: authReducer_currentUser authReducer_error default_state_def)

text \<open>
  C2, as the spec states it: every successful terminal action, \<open>RegisterSuccess\<close>
  included, clears \<open>error\<close>. The reducer's \<open>REGISTER_SUCCESS\<close> case copies the state and
  sets only \<open>registerSuccess\<close>: an error left by a failed registration is still there
  after a successful one.
\<close>

theorem register_success_clears_error_counterexample:
  "property (reduce_all INITIAL_STATE
       [registerFailure (JStr ''duplicate email''), registerSuccess (JObj [])]) ''error''
     = JStr ''duplicate email''
   \<and> property (reduce_all INITIAL_STATE
       [registerFailure (JStr ''duplicate email''), registerSuccess (JObj [])]) ''error''
     \<noteq> JNull"
  by (simp add: reduce_all_def authReducer_error default_state_def)

text \<open>
  C2, amended: what each action does to \<open>currentUser\<close> and \<open>error\<close>, for every state and
  every action. \<open>currentUser\<close> becomes the payload on \<open>LoginSuccess\<close>, \<open>null\<close> on
  \<open>LogOut\<close>, and is unchanged by every other action. \<open>error\<close> becomes \<open>null\<close> on
  \<open>LoginSuccess\<close> and \<open>LogOut\<close>, the payload on \<open>LoginFailure\<close> and
  \<open>RegisterFailure\<close>, and is unchanged by every other action, \<open>RegisterSuccess\<close>
  included.
\<close>

theorem authReducer_user_and_error:
  "property (authReducer s a) ''currentUser'' =
     (if property a ''type'' = JStr LOG_IN_SUCCESS then property a ''payload''
      else if property a ''type'' = JStr LOG_OUT then JNull
      else property (default_state s) ''currentUser'')
   \<and> property (authReducer s a) ''error'' =
     (if property a ''type'' = JStr LOG_IN_SUCCESS then JNull
      else if property a ''type'' = JStr LOG_IN_FAILURE
              \<or> property a ''type'' = JStr REGISTER_FAILURE then property a ''payload''
      else if property a ''type'' = JStr LOG_OUT then JNull
      else property (default_state s) ''error'')
   \<and> property (authReducer s (registerSuccess c)) ''error'' = property (default_state s) ''error''"
  by (simp add: authReducer_currentUser authReducer_error)

text \<open>
  C5, as the spec states it: the state after \<open>LogOut\<close> is
  \<open>{currentUser: absent, error: absent, registerSuccess: false}\<close>. The state the reducer
  returns has no \<open>registerSuccess\<close> property: reading it gives \<open>undefined\<close>, not
  \<open>false\<close>.
\<close>

theorem logout_state_counterexample:
  "authReducer (Some (reduce_all INITIAL_STATE [registerSuccess (JObj [])])) logOut
     \<noteq> [(''currentUser'', JNull), (''error'', JNull), (''registerSuccess'', JBool False)]
   \<and> property (authReducer (Some (reduce_all INITIAL_STATE [registerSuccess (JObj [])])) logOut)
       ''registerSuccess'' \<noteq> JBool False"
  by (simp add: authReducer_logOut INITIAL_STATE_registerSuccess) (simp add: INITIAL_STATE_def)

text \<open>
  C5, amended: for every starting state and every sequence of actions, the state after a
  final \<open>LogOut\<close> is \<open>INITIAL_STATE\<close>, the object \<open>{currentUser: null, error: null}\<close>,
  in which \<open>registerSuccess\<close> is absent (it reads as \<open>undefined\<close>, which is falsy).
\<close>

theorem logout_resets_to_initial_state:
  "authReducer (Some (reduce_all s acts)) logOut = INITIAL_STATE
   \<and> INITIAL_STATE = [(''currentUser'', JNull), (''error'', JNull)]
   \<and> property INITIAL_STATE ''registerSuccess'' = JUndefined
   \<and> truthy (property INITIAL_STATE ''registerSuccess'') = False"
  by (simp add: authReducer_logOut INITIAL_STATE_registerSuccess) (simp add: INITIAL_STATE_def)

text \<open>
  C9. Called with an absent state and an action that none of the four updating cases
  matches (the store's initialisation action is one), the reducer returns
  \<open>{currentUser: null, error: null}\<close>, which has no \<open>registerSuccess\<close> property.
\<close>

theorem reducer_absent_state:
  assumes "property action ''type'' \<noteq> JStr LOG_IN_SUCCESS"
    and "property action ''type'' \<noteq> JStr LOG_IN_FAILURE"
    and "property action ''type'' \<noteq> JStr REGISTER_FAILURE"
    and "property action ''type'' \<noteq> JStr REGISTER_SUCCESS"
  shows "authReducer None action = [(''currentUser'', JNull), (''error'', JNull)]
         \<and> ''registerSuccess'' \<notin> fst ` set (authReducer None action)
         \<and> map_of (authReducer None action) ''registerSuccess'' = None"
  using assms by (simp add: authReducer_def Let_def default_state_def INITIAL_STATE_def)

theorem reducer_absent_state_witness:
  "authReducer None [(''type'', JStr ''@@redux/INIT'')]
     = [(''currentUser'', JNull), (''error'', JNull)]
   \<and> ''registerSuccess'' \<notin> fst ` set (authReducer None [(''type'', JStr ''@@redux/INIT'')])
   \<and> map_of (authReducer None [(''type'', JStr ''@@redux/INIT'')]) ''registerSuccess'' = None"
  using reducer_absent_state [of "[(''type'', JStr ''@@redux/INIT'')]"]
  by (simp add: property_def types_defs)

lemma reduce_all_keeps_registerSuccess:
  "\<forall>a \<in> set acts. property a ''type'' \<noteq> JStr LOG_OUT \<Longrightarrow>
   property s ''registerSuccess'' = JBool True \<Longrightarrow>
   property (reduce_all s acts) ''registerSuccess'' = JBool True"
  unfolding reduce_all_def
proof (induction acts arbitrary: s)
  case Nil
  then show ?case by simp
next
  case (Cons a acts)
  from Cons.prems have "property (authReducer (Some s) a) ''registerSuccess'' = JBool True"
    by (simp add: authReducer_registerSuccess default_state_def)
  with Cons.prems Cons.IH [of "authReducer (Some s) a"] show ?case by simp
qed

text \<open>
  C10. Once a \<open>RegisterSuccess\<close> action has set \<open>registerSuccess\<close> to \<open>true\<close>, it stays
  \<open>true\<close> through every sequence of actions that contains no \<open>LogOut\<close>.
\<close>

theorem registerSuccess_sticky:
  assumes "\<forall>a \<in> set acts. property a ''type'' \<noteq> JStr LOG_OUT"
  shows "property (reduce_all (authReducer s (registerSuccess c)) acts) ''registerSuccess''
           = JBool True"
  using assms
  by (intro reduce_all_keeps_registerSuccess) (simp_all add: authReducer_registerSuccess)

theorem registerSuccess_sticky_witness:
  "(\<forall>a \<in> set [registerFailure (JStr ''duplicate email''), logInSuccess (JObj []),
        logInFailure (JStr ''bad password'')]. property a ''type'' \<noteq> JStr LOG_OUT) = True
   \<and> property (reduce_all (authReducer None (registerSuccess (JObj [])))
        [registerFailure (JStr ''duplicate email''), logInSuccess (JObj []),
         logInFailure (JStr ''bad password'')]) ''registerSuccess'' = JBool True"
  using registerSuccess_sticky [of "[registerFailure (JStr ''duplicate email''),
    logInSuccess (JObj []), logInFailure (JStr ''bad password'')]" None "JObj []"]
  by simp

section \<open>The reducer on the heap\<close>

lemma authReducer_heap_frame:
  "take (length h) (fst (authReducer_heap init h state0 action)) = h"
  by (simp add: authReducer_heap_def Let_def alloc_def)

lemma authReducer_heap_ref:
  "snd (authReducer_heap init h state0 action) =
     (if updating action then length h
      else if property action ''type'' = JStr LOG_OUT then init
      else (case state0 of None \<Rightarrow> init | Some r \<Rightarrow> r))"
  by (auto simp: authReducer_heap_def Let_def alloc_def updating_def)

lemma authReducer_heap_value:
  assumes "init < length h" and "h ! init = INITIAL_STATE"
    and "case state0 of None \<Rightarrow> True | Some r \<Rightarrow> r < length h"
  shows "fst (authReducer_heap init h state0 action) ! snd (authReducer_heap init h state0 action)
           = authReducer (map_option ((!) h) state0) action"
  using assms
  by (cases state0)
     (simp_all add: authReducer_heap_def authReducer_def default_state_def Let_def alloc_def)

text \<open>
  C8, as the spec states it: for every state and action the reducer returns a new state
  value. For an action that no case matches, \<open>default: return state\<close> returns the input
  object itself; here the input is the object at reference 1 and so is the result.
\<close>

theorem reducer_returns_input_counterexample:
  "snd (authReducer_heap 0
          [INITIAL_STATE, [(''currentUser'', JObj [(''token'', JStr ''t1'')]), (''error'', JNull)]]
          (Some 1) [(''type'', JStr ''@@redux/INIT'')]) = 1
   \<and> fst (authReducer_heap 0
          [INITIAL_STATE, [(''currentUser'', JObj [(''token'', JStr ''t1'')]), (''error'', JNull)]]
          (Some 1) [(''type'', JStr ''@@redux/INIT'')])
       = [INITIAL_STATE, [(''currentUser'', JObj [(''token'', JStr ''t1'')]), (''error'', JNull)]]"
  by (simp add: authReducer_heap_def Let_def property_def types_defs)

text \<open>
  C8, amended: the reducer is a total function of the state and the action with no effect
  but allocation. Every object of the heap, the input state included, is the same after
  the call as before; the object returned holds the value the pure reducer computes; and it
  is a newly allocated object for \<open>LoginSuccess\<close>, \<open>LoginFailure\<close>, \<open>RegisterFailure\<close>
  and \<open>RegisterSuccess\<close>, the shared \<open>INITIAL_STATE\<close> object for \<open>LogOut\<close>, and the
  input object itself for any other action.
\<close>

theorem reducer_never_mutates:
  assumes "init < length h" and "h ! init = INITIAL_STATE"
    and "case state0 of None \<Rightarrow> True | Some r \<Rightarrow> r < length h"
  shows "take (length h) (fst (authReducer_heap init h state0 action)) = h
    \<and> fst (authReducer_heap init h state0 action) ! snd (authReducer_heap init h state0 action)
        = authReducer (map_option ((!) h) state0) action
    \<and> snd (authReducer_heap init h state0 action) =
        (if updating action then length h
         else if property action ''type'' = JStr LOG_OUT then init
         else (case state0 of None \<Rightarrow> init | Some r \<Rightarrow> r))
    \<and> length (fst (authReducer_heap init h state0 action)) =
        (if updating action then Suc (length h) else length h)"
proof -
  have "length (fst (authReducer_heap init h state0 action)) =
        (if updating action then Suc (length h) else length h)"
    by (auto simp: authReducer_heap_def Let_def alloc_def updating_def)
  with authReducer_heap_frame authReducer_heap_ref authReducer_heap_value [OF assms]
  show ?thesis by simp
qed

theorem reducer_never_mutates_witness:
  "take 2 (fst (authReducer_heap 0
       [INITIAL_STATE, [(''currentUser'', JNull), (''error'', JStr ''bad password'')]]
       (Some 1) (logInSuccess (JObj [(''token'', JStr ''t1'')]))))
     = [INITIAL_STATE, [(''currentUser'', JNull), (''error'', JStr ''bad password'')]]
   \<and> fst (authReducer_heap 0
       [INITIAL_STATE, [(''currentUser'', JNull), (''error'', JStr ''bad password'')]]
       (Some 1) (logInSuccess (JObj [(''token'', JStr ''t1'')]))) ! 2
     = [(''currentUser'', JObj [(''token'', JStr ''t1'')]), (''error'', JNull)]
   \<and> snd (authReducer_heap 0
       [INITIAL_STATE, [(''currentUser'', JNull), (''error'', JStr ''bad password'')]]
       (Some 1) (logInSuccess (JObj [(''token'', JStr ''t1'')]))) = 2"
  using reducer_never_mutates [of 0
      "[INITIAL_STATE, [(''currentUser'', JNull), (''error'', JStr ''bad password'')]]"
      "Some 1" "logInSuccess (JObj [(''token'', JStr ''t1'')])"]
  by (auto simp: updating_def authReducer_def Let_def default_state_def numeral_2_eq_2)

section \<open>Properties of the sagas and of the middleware\<close>


subsection \<open>One dispatch\<close>

lemma start_throws_iff:
  "isl (start (worker_of w) a) \<longleftrightarrow> nullish (property a ''payload'')"
  by (cases w; cases "property a ''payload''")
     (simp_all add: logInWithCredentials_def registerWithCredentials_def logInAfterRegister_def
        logIn_params_def register_params_def nullish_def)

lemma takeLatest_other [simp]:
  "property a ''type'' \<noteq> JStr (pattern w) \<Longrightarrow> takeLatest w a r = r"
  by (simp add: takeLatest_def)

lemma takeLatest_dead [simp]: "\<not> alive r \<Longrightarrow> takeLatest w a r = r"
  by (simp add: takeLatest_def)

lemma dispatch_cases:
  "dispatch origin a r =
     (let r0 = r\<lparr>store := authReducer (Some (store r)) a,
                 dispatched := dispatched r @ [(origin, a)]\<rparr>
      in if property a ''type'' = JStr LOG_IN_START then takeLatest OnLogInStart a r0
         else if property a ''type'' = JStr REGISTER_START then takeLatest OnRegisterStart a r0
         else if property a ''type'' = JStr REGISTER_SUCCESS then takeLatest OnRegisterSuccess a r0
         else r0)"
  by (simp add: dispatch_def authSagas_def Let_def)


lemma takeLatest_cases:
  "takeLatest w a r =
     (if alive r \<and> property a ''type'' = JStr (pattern w) then
        (if nullish (property a ''payload'') then abort r
         else r\<lparr>tasks := (tasks r)(w := Some (next_id r, snd (projr (start (worker_of w) a)))),
               next_id := Suc (next_id r),
               requests := requests r @ [(next_id r, fst (projr (start (worker_of w) a)))]\<rparr>)
      else r)"
  using start_throws_iff [of w a]
  by (cases "start (worker_of w) a") (auto simp: takeLatest_def)

lemma takeLatest_log [simp]:
  "dispatched (takeLatest w a r) = dispatched r" "store (takeLatest w a r) = store r"
  by (simp_all add: takeLatest_cases abort_def)

lemma takeLatest_alive:
  "alive (takeLatest w a r) =
     (alive r \<and> \<not> (property a ''type'' = JStr (pattern w) \<and> nullish (property a ''payload'')))"
  by (auto simp: takeLatest_cases abort_def)

lemma takeLatest_next_id: "next_id r \<le> next_id (takeLatest w a r)"
  by (simp add: takeLatest_cases abort_def)

lemma wf_bound: "wf r \<Longrightarrow> tasks r w = Some (i, l) \<Longrightarrow> i < next_id r"
  unfolding wf_def by blast

lemma wf_unique: "wf r \<Longrightarrow> tasks r w = Some (i, l) \<Longrightarrow> tasks r w' = Some (i, l') \<Longrightarrow> w = w'"
  unfolding wf_def by blast

lemma wfI:
  assumes "\<And>w i l. tasks r w = Some (i, l) \<Longrightarrow> i < next_id r"
    and "\<And>w w' i l l'. tasks r w = Some (i, l) \<Longrightarrow> tasks r w' = Some (i, l') \<Longrightarrow> w = w'"
  shows "wf r"
  unfolding wf_def using assms by blast

lemma wf_abort: "wf (abort r)"
  by (simp add: wf_def abort_def)

lemma wf_fork:
  assumes "wf r"
  shows "wf (r\<lparr>tasks := (tasks r)(w := Some (next_id r, l)), next_id := Suc (next_id r),
              requests := q\<rparr>)"
proof (rule wfI)
  fix w' i l'
  assume "tasks (r\<lparr>tasks := (tasks r)(w := Some (next_id r, l)), next_id := Suc (next_id r),
              requests := q\<rparr>) w' = Some (i, l')"
  then show "i < next_id (r\<lparr>tasks := (tasks r)(w := Some (next_id r, l)),
              next_id := Suc (next_id r), requests := q\<rparr>)"
    using wf_bound [OF assms, of w' i l'] by (auto split: if_splits)
next
  fix w1 w2 i l1 l2
  assume "tasks (r\<lparr>tasks := (tasks r)(w := Some (next_id r, l)), next_id := Suc (next_id r),
              requests := q\<rparr>) w1 = Some (i, l1)"
    and "tasks (r\<lparr>tasks := (tasks r)(w := Some (next_id r, l)), next_id := Suc (next_id r),
              requests := q\<rparr>) w2 = Some (i, l2)"
  then show "w1 = w2"
    using wf_bound [OF assms, of w1 i l1] wf_bound [OF assms, of w2 i l2]
      wf_unique [OF assms, of w1 i l1 w2 l2]
    by (auto split: if_splits)
qed

lemma wf_finish: "wf r \<Longrightarrow> wf (r\<lparr>tasks := (tasks r)(w := None)\<rparr>)"
  unfolding wf_def by (auto split: if_splits)

lemma takeLatest_wf: "wf r \<Longrightarrow> wf (takeLatest w a r)"
  by (simp add: takeLatest_cases wf_abort wf_fork)

lemma idle_fork:
  "idle i r \<Longrightarrow> idle i (r\<lparr>tasks := (tasks r)(w := Some (next_id r, l)),
      next_id := Suc (next_id r), requests := q\<rparr>)"
  by (auto simp: idle_def)

lemma idle_abort: "idle i r \<Longrightarrow> idle i (abort r)"
  by (simp add: idle_def abort_def)

lemma takeLatest_idle: "idle i r \<Longrightarrow> idle i (takeLatest w a r)"
  by (simp add: takeLatest_cases idle_abort idle_fork)

lemma takeLatest_tasks_other:
  "w' \<noteq> w \<Longrightarrow> alive (takeLatest w a r) \<Longrightarrow> tasks (takeLatest w a r) w' = tasks r w'"
  by (auto simp: takeLatest_cases abort_def split: if_splits)

lemma dispatch_log [simp]:
  "dispatched (dispatch origin a r) = dispatched r @ [(origin, a)]"
  "store (dispatch origin a r) = authReducer (Some (store r)) a"
  by (simp_all add: dispatch_cases Let_def)

lemma dispatch_alive: "alive (dispatch origin a r) = (alive r \<and> \<not> crashes a)"
  by (auto simp: dispatch_cases Let_def takeLatest_alive crashes_def)

lemma dispatch_next_id: "next_id r \<le> next_id (dispatch origin a r)"
  using takeLatest_next_id [of "r\<lparr>store := authReducer (Some (store r)) a,
                 dispatched := dispatched r @ [(origin, a)]\<rparr>"]
  by (simp add: dispatch_cases Let_def)

lemma wf_log_update [simp]: "wf (r\<lparr>store := s, dispatched := d\<rparr>) = wf r"
  by (simp add: wf_def)

lemma idle_log_update [simp]: "idle i (r\<lparr>store := s, dispatched := d\<rparr>) = idle i r"
  by (simp add: idle_def)

lemma dispatch_wf: "wf r \<Longrightarrow> wf (dispatch origin a r)"
  by (simp add: dispatch_cases Let_def takeLatest_wf)

lemma dispatch_idle: "idle i r \<Longrightarrow> idle i (dispatch origin a r)"
  by (simp add: dispatch_cases Let_def takeLatest_idle)

lemma dispatch_tasks_other:
  "property a ''type'' \<noteq> JStr (pattern w) \<Longrightarrow> alive (dispatch origin a r) \<Longrightarrow>
   tasks (dispatch origin a r) w = tasks r w"
  by (cases w) (auto simp: dispatch_cases Let_def takeLatest_tasks_other)


subsection \<open>A settling request\<close>

lemma dispatch_all_Nil [simp]: "dispatch_all origin [] r = r"
  by (simp add: dispatch_all_def)

lemma dispatch_all_Cons [simp]:
  "dispatch_all origin (a # acts) r = dispatch_all origin acts (dispatch origin a r)"
  by (simp add: dispatch_all_def)

lemma dispatch_all_log [simp]:
  "dispatched (dispatch_all origin acts r) = dispatched r @ map (Pair origin) acts"
  by (induction acts arbitrary: r) simp_all

lemma dispatch_all_store: "store (dispatch_all origin acts r) = reduce_all (store r) acts"
  by (induction acts arbitrary: r) (simp_all add: reduce_all_def)

lemma dispatch_all_wf: "wf r \<Longrightarrow> wf (dispatch_all origin acts r)"
  by (induction acts arbitrary: r) (simp_all add: dispatch_wf)

lemma dispatch_all_idle: "idle i r \<Longrightarrow> idle i (dispatch_all origin acts r)"
  by (induction acts arbitrary: r) (simp_all add: dispatch_idle)

lemma dispatch_all_alive:
  "alive (dispatch_all origin acts r) = (alive r \<and> (\<forall>a \<in> set acts. \<not> crashes a))"
  by (induction acts arbitrary: r) (auto simp: dispatch_alive)

lemma dispatch_all_tasks_other:
  "\<forall>a \<in> set acts. property a ''type'' \<noteq> JStr (pattern w) \<Longrightarrow>
   alive (dispatch_all origin acts r) \<Longrightarrow>
   tasks (dispatch_all origin acts r) w = tasks r w"
proof (induction acts arbitrary: r)
  case Nil
  show ?case by simp
next
  case (Cons a acts)
  from Cons.prems have al: "alive (dispatch origin a r)"
    by (simp add: dispatch_all_alive)
  from Cons.prems have "tasks (dispatch_all origin acts (dispatch origin a r)) w
      = tasks (dispatch origin a r) w"
    by (intro Cons.IH) simp_all
  with Cons.prems al show ?case by (simp add: dispatch_tasks_other)
qed

lemma resume_terminal:
  assumes "a \<in> set (resume (worker_of w) l oc)"
  shows "\<not> crashes a" and "property a ''type'' \<noteq> JStr LOG_IN_START"
    and "property a ''type'' \<noteq> JStr REGISTER_START"
  using assms
  by (cases w; auto simp: logInWithCredentials_def registerWithCredentials_def
        logInAfterRegister_def crashes_def nullish_def split: sum.splits)+

lemma current_in_Some:
  "current_in ws r i = Some (w, l) \<Longrightarrow> tasks r w = Some (i, l)"
  by (induction ws) (auto split: option.splits if_splits)

lemma current_in_None:
  "current_in ws r i = None \<Longrightarrow> w \<in> set ws \<Longrightarrow> tasks r w \<noteq> Some (i, l)"
  by (induction ws) (auto split: option.splits if_splits)

lemma watcher_in_authSagas [simp]: "w \<in> set authSagas"
  by (cases w) (simp_all add: authSagas_def)

lemma current_Some: "current r i = Some (w, l) \<Longrightarrow> tasks r w = Some (i, l)"
  unfolding current_def by (rule current_in_Some)

lemma current_of_task:
  assumes "wf r" and "tasks r w = Some (i, l)"
  shows "current r i = Some (w, l)"
proof (cases "current r i")
  case None
  then show ?thesis
    using current_in_None [of authSagas r i w l] assms by (simp add: current_def)
next
  case (Some p)
  obtain w' l' where p: "p = (w', l')" by (cases p)
  with Some have t: "tasks r w' = Some (i, l')" by (simp add: current_Some)
  with assms have "w' = w" by (meson wf_unique)
  with t assms Some p show ?thesis by simp
qed

lemma settle_current:
  "wf r \<Longrightarrow> tasks r w = Some (i, l) \<Longrightarrow>
   settle i oc r =
     dispatch_all (Some i) (resume (worker_of w) l oc) (r\<lparr>tasks := (tasks r)(w := None)\<rparr>)"
  by (simp add: settle_def current_of_task)


subsection \<open>Reachable states\<close>

lemma settle_wf: "wf r \<Longrightarrow> wf (settle i oc r)"
  by (cases "current r i") (auto simp: settle_def intro: dispatch_all_wf wf_finish)

lemma step_wf: "wf r \<Longrightarrow> wf (step r e)"
  by (cases e) (simp_all add: dispatch_wf settle_wf)

lemma run_Nil [simp]: "run r [] = r"
  by (simp add: run_def)

lemma run_Cons [simp]: "run r (e # evs) = run (step r e) evs"
  by (simp add: run_def)

lemma run_append: "run r (evs @ evs') = run (run r evs) evs'"
  by (simp add: run_def)

lemma run_wf: "wf r \<Longrightarrow> wf (run r evs)"
  by (induction evs arbitrary: r) (simp_all add: step_wf)

lemma wf_init_runner: "wf init_runner"
  by (simp add: wf_def init_runner_def)

lemma reachable_wf: "wf (run init_runner evs)"
  by (rule run_wf [OF wf_init_runner])

subsection \<open>A task that is not current never puts\<close>

lemma puts_of_append [simp]:
  "puts_of i (r\<lparr>dispatched := dispatched r @ xs\<rparr>) = puts_of i r @ map snd (filter (\<lambda>(origin, a). origin = Some i) xs)"
  by (simp add: puts_of_def)

lemma puts_of_dispatch:
  "puts_of i (dispatch origin a r) = puts_of i r @ (if origin = Some i then [a] else [])"
  by (simp add: puts_of_def)

lemma puts_of_dispatch_all:
  "puts_of i (dispatch_all origin acts r) = puts_of i r @ (if origin = Some i then acts else [])"
  by (simp add: puts_of_def filter_map comp_def)

lemma idle_finish: "idle i r \<Longrightarrow> idle i (r\<lparr>tasks := (tasks r)(w := None)\<rparr>)"
  by (simp add: idle_def)

lemma puts_of_tasks_update [simp]: "puts_of i (r\<lparr>tasks := t\<rparr>) = puts_of i r"
  by (simp add: puts_of_def)

lemma settle_idle:
  assumes "idle i r"
  shows "idle i (settle j oc r)" and "puts_of i (settle j oc r) = puts_of i r"
proof -
  show "idle i (settle j oc r)"
    using assms
    by (cases "current r j") (auto simp: settle_def intro: dispatch_all_idle idle_finish)
  show "puts_of i (settle j oc r) = puts_of i r"
  proof (cases "current r j")
    case None
    then show ?thesis by (simp add: settle_def)
  next
    case (Some p)
    obtain w l where p: "p = (w, l)" by (cases p)
    with Some have "tasks r w = Some (j, l)" by (simp add: current_Some)
    with assms have "j \<noteq> i" by (auto simp: idle_def)
    with Some p show ?thesis by (simp add: settle_def puts_of_dispatch_all)
  qed
qed

lemma step_idle:
  assumes "idle i r"
  shows "idle i (step r e)" and "puts_of i (step r e) = puts_of i r"
  using assms by (cases e; simp add: dispatch_idle settle_idle puts_of_dispatch)+

lemma run_idle:
  "idle i r \<Longrightarrow> puts_of i (run r evs) = puts_of i r"
  by (induction evs arbitrary: r) (simp_all add: step_idle)


subsection \<open>A current task puts once, when its request settles\<close>

lemma settle_pending:
  assumes "alive r" and "wf r" and "tasks r w = Some (i, l)"
  shows "puts_of i (settle i oc r) = puts_of i r @ resume (worker_of w) l oc"
    and "dispatched (settle i oc r) = dispatched r @ map (Pair (Some i)) (resume (worker_of w) l oc)"
    and "store (settle i oc r) = reduce_all (store r) (resume (worker_of w) l oc)"
    and "idle i (settle i oc r)"
    and "alive (settle i oc r)"
    and "wf (settle i oc r)"
proof -
  let ?r = "r\<lparr>tasks := (tasks r)(w := None)\<rparr>"
  have eq: "settle i oc r = dispatch_all (Some i) (resume (worker_of w) l oc) ?r"
    using assms by (simp add: settle_current)
  show "puts_of i (settle i oc r) = puts_of i r @ resume (worker_of w) l oc"
    by (simp add: eq puts_of_dispatch_all)
  show "dispatched (settle i oc r) = dispatched r @ map (Pair (Some i)) (resume (worker_of w) l oc)"
    by (simp add: eq)
  show "store (settle i oc r) = reduce_all (store r) (resume (worker_of w) l oc)"
    by (simp add: eq dispatch_all_store)
  have "idle i ?r"
    unfolding idle_def
    using wf_bound [OF assms(2,3)] wf_unique [OF assms(2,3)] by auto
  then show "idle i (settle i oc r)"
    by (simp add: eq dispatch_all_idle)
  show "alive (settle i oc r)"
    using assms(1) by (auto simp: eq dispatch_all_alive dest: resume_terminal(1))
  show "wf (settle i oc r)"
    using assms(2) by (rule settle_wf)
qed

lemma pending_step:
  assumes "alive r" and "wf r" and "tasks r w = Some (i, l)" and "w \<noteq> OnRegisterSuccess"
    and "quiet w e" and "\<forall>oc. e \<noteq> Settle i oc"
  shows "alive (step r e)" and "tasks (step r e) w = Some (i, l)"
    and "puts_of i (step r e) = puts_of i r"
proof -
  have "alive (step r e) \<and> tasks (step r e) w = Some (i, l) \<and> puts_of i (step r e) = puts_of i r"
  proof (cases e)
    case (Dispatch a)
    with assms have al: "alive (dispatch None a r)" by (simp add: dispatch_alive)
    with assms Dispatch show ?thesis
      by (simp add: dispatch_tasks_other puts_of_dispatch)
  next
    case (Settle j oc)
    with assms have ji: "j \<noteq> i" by auto
    show ?thesis
    proof (cases "current r j")
      case None
      with assms Settle show ?thesis by (simp add: settle_def)
    next
      case (Some p)
      obtain w' l' where p: "p = (w', l')" by (cases p)
      with Some have t: "tasks r w' = Some (j, l')" by (simp add: current_Some)
      with assms ji have ww: "w' \<noteq> w" by auto
      let ?r = "r\<lparr>tasks := (tasks r)(w' := None)\<rparr>"
      let ?acts = "resume (worker_of w') l' oc"
      have eq: "step r e = dispatch_all (Some j) ?acts ?r"
        using Settle Some p by (simp add: settle_def)
      have al: "alive (dispatch_all (Some j) ?acts ?r)"
        using assms(1) by (auto simp: dispatch_all_alive dest: resume_terminal(1))
      have ty: "\<forall>a \<in> set ?acts. property a ''type'' \<noteq> JStr (pattern w)"
        using assms(4) resume_terminal(2,3) [of _ w' l' oc] by (cases w) auto
      have "tasks (dispatch_all (Some j) ?acts ?r) w = tasks ?r w"
        using ty al by (rule dispatch_all_tasks_other)
      with al ww assms(3) ji show ?thesis
        by (simp add: eq puts_of_dispatch_all)
    qed
  qed
  then show "alive (step r e)" and "tasks (step r e) w = Some (i, l)"
    and "puts_of i (step r e) = puts_of i r" by simp_all
qed

lemma pending_run:
  assumes "alive r" and "wf r" and "tasks r w = Some (i, l)" and "w \<noteq> OnRegisterSuccess"
    and "\<forall>e \<in> set evs. quiet w e"
  shows "puts_of i (run r evs) =
           puts_of i r @ (case first_outcome i evs of None \<Rightarrow> [] | Some oc \<Rightarrow> resume (worker_of w) l oc)"
  using assms
proof (induction evs arbitrary: r)
  case Nil
  show ?case by simp
next
  case (Cons e evs)
  show ?case
  proof (cases "\<exists>oc. e = Settle i oc")
    case True
    then obtain oc where e: "e = Settle i oc" ..
    from Cons.prems have "idle i (settle i oc r)"
      and "puts_of i (settle i oc r) = puts_of i r @ resume (worker_of w) l oc"
      by (simp_all add: settle_pending)
    then show ?thesis by (simp add: e run_idle)
  next
    case False
    then have ne: "\<forall>oc. e \<noteq> Settle i oc" by simp
    from Cons.prems have q: "quiet w e" by simp
    note st = pending_step [OF Cons.prems(1-4) q ne]
    have "puts_of i (run (step r e) evs) =
           puts_of i (step r e) @ (case first_outcome i evs of None \<Rightarrow> []
                                   | Some oc \<Rightarrow> resume (worker_of w) l oc)"
      using st Cons.prems by (intro Cons.IH) (simp_all add: step_wf)
    moreover have "first_outcome i (e # evs) = first_outcome i evs"
      using ne by (cases e) auto
    ultimately show ?thesis using st(3) by simp
  qed
qed


subsection \<open>Only forked tasks put\<close>

lemma logged_puts_of: "logged r \<Longrightarrow> next_id r \<le> i \<Longrightarrow> puts_of i r = []"
  unfolding logged_def puts_of_def
  by (auto simp: filter_empty_conv)

lemma dispatch_all_next_id: "next_id r \<le> next_id (dispatch_all origin acts r)"
proof (induction acts arbitrary: r)
  case Nil
  show ?case by simp
next
  case (Cons a acts)
  have "next_id r \<le> next_id (dispatch origin a r)" by (rule dispatch_next_id)
  also have "\<dots> \<le> next_id (dispatch_all origin acts (dispatch origin a r))" by (rule Cons.IH)
  finally show ?case by simp
qed

lemma step_logged:
  assumes "wf r" and "logged r"
  shows "logged (step r e)"
proof (cases e)
  case (Dispatch a)
  have "next_id r \<le> next_id (dispatch None a r)" by (rule dispatch_next_id)
  with assms(2) Dispatch show ?thesis
    unfolding logged_def by (auto dest: less_le_trans)
next
  case (Settle j oc)
  show ?thesis
  proof (cases "current r j")
    case None
    with assms(2) Settle show ?thesis by (simp add: settle_def)
  next
    case (Some p)
    obtain w l where p: "p = (w, l)" by (cases p)
    with Some have t: "tasks r w = Some (j, l)" by (simp add: current_Some)
    then have j: "j < next_id r" using assms(1) by (meson wf_bound)
    let ?r' = "dispatch_all (Some j) (resume (worker_of w) l oc) (r\<lparr>tasks := (tasks r)(w := None)\<rparr>)"
    have "next_id (r\<lparr>tasks := (tasks r)(w := None)\<rparr>) \<le> next_id ?r'"
      by (rule dispatch_all_next_id)
    then have n: "next_id r \<le> next_id ?r'" by simp
    have eq: "step r e = ?r'" using Settle Some p by (simp add: settle_def)
    show ?thesis
      unfolding eq logged_def
      using assms(2) j n by (auto simp: logged_def dest: less_le_trans)
  qed
qed

lemma run_logged: "wf r \<Longrightarrow> logged r \<Longrightarrow> logged (run r evs)"
  by (induction evs arbitrary: r) (simp_all add: step_wf step_logged)

lemma reachable_logged: "logged (run init_runner evs)"
  by (rule run_logged [OF wf_init_runner]) (simp add: logged_def init_runner_def)

subsection \<open>Latest wins\<close>

lemma dispatch_start:
  assumes "alive r" and "property a ''type'' = JStr (pattern w)"
    and "start (worker_of w) a = Inr (q, l)"
  shows "tasks (dispatch origin a r) w = Some (next_id r, l)"
    and "next_id (dispatch origin a r) = Suc (next_id r)"
    and "requests (dispatch origin a r) = requests r @ [(next_id r, q)]"
    and "alive (dispatch origin a r)"
    and "w' \<noteq> w \<Longrightarrow> tasks (dispatch origin a r) w' = tasks r w'"
proof -
  have "\<not> nullish (property a ''payload'')"
    using start_throws_iff [of w a] assms(3) by auto
  with assms have
    "dispatch origin a r =
       r\<lparr>store := authReducer (Some (store r)) a, dispatched := dispatched r @ [(origin, a)],
         tasks := (tasks r)(w := Some (next_id r, l)), next_id := Suc (next_id r),
         requests := requests r @ [(next_id r, q)]\<rparr>"
    by (cases w) (simp_all add: dispatch_cases takeLatest_cases Let_def)
  then show "tasks (dispatch origin a r) w = Some (next_id r, l)"
    and "next_id (dispatch origin a r) = Suc (next_id r)"
    and "requests (dispatch origin a r) = requests r @ [(next_id r, q)]"
    and "alive (dispatch origin a r)"
    and "w' \<noteq> w \<Longrightarrow> tasks (dispatch origin a r) w' = tasks r w'"
    using assms(1) by simp_all
qed

lemma latest_wins:
  assumes "alive r" and "wf r" and "logged r"
    and "property a1 ''type'' = JStr (pattern w)" and "property a2 ''type'' = JStr (pattern w)"
    and "start (worker_of w) a1 = Inr (q1, l1)" and "start (worker_of w) a2 = Inr (q2, l2)"
  shows "requests (run r [Dispatch a1, Dispatch a2])
           = requests r @ [(next_id r, q1), (Suc (next_id r), q2)]"
    and "puts_of (next_id r) (run r (Dispatch a1 # Dispatch a2 # evs)) = []"
    and "w \<noteq> OnRegisterSuccess \<Longrightarrow> \<forall>e \<in> set qs. quiet w e \<Longrightarrow>
         puts_of (Suc (next_id r)) (run r (Dispatch a1 # Dispatch a2 # qs))
           = (case first_outcome (Suc (next_id r)) qs of
                None \<Rightarrow> [] | Some oc \<Rightarrow> resume (worker_of w) l2 oc)"
proof -
  let ?r1 = "dispatch None a1 r"
  let ?r2 = "dispatch None a2 ?r1"
  note d1 = dispatch_start [OF assms(1,4,6), where origin = None]
  note d2 = dispatch_start [OF d1(4) assms(5,7), where origin = None]
  have wf2: "wf ?r2" using assms(2) by (simp add: dispatch_wf)
  have p0: "puts_of i ?r2 = puts_of i r" for i
    by (simp add: puts_of_dispatch)
  show "requests (run r [Dispatch a1, Dispatch a2])
           = requests r @ [(next_id r, q1), (Suc (next_id r), q2)]"
    using d1 d2 by simp
  have "tasks ?r2 w' \<noteq> Some (next_id r, l)" for w' l
  proof (cases "w' = w")
    case True
    with d1 d2 show ?thesis by simp
  next
    case False
    then have "tasks ?r2 w' = tasks r w'" using d1(5) d2(5) by simp
    then show ?thesis using wf_bound [OF assms(2), of w' "next_id r" l] by auto
  qed
  then have "idle (next_id r) ?r2"
    using d1 d2 by (simp add: idle_def)
  then have "puts_of (next_id r) (run ?r2 evs) = puts_of (next_id r) ?r2"
    by (rule run_idle)
  then show "puts_of (next_id r) (run r (Dispatch a1 # Dispatch a2 # evs)) = []"
    using logged_puts_of [OF assms(3), of "next_id r"] by (simp add: p0)
  show "puts_of (Suc (next_id r)) (run r (Dispatch a1 # Dispatch a2 # qs))
           = (case first_outcome (Suc (next_id r)) qs of
                None \<Rightarrow> [] | Some oc \<Rightarrow> resume (worker_of w) l2 oc)"
    if "w \<noteq> OnRegisterSuccess" and "\<forall>e \<in> set qs. quiet w e"
  proof -
    have t2: "tasks ?r2 w = Some (Suc (next_id r), l2)" using d1 d2 by simp
    have "puts_of (Suc (next_id r)) (run ?r2 qs) =
            puts_of (Suc (next_id r)) ?r2 @
            (case first_outcome (Suc (next_id r)) qs of
               None \<Rightarrow> [] | Some oc \<Rightarrow> resume (worker_of w) l2 oc)"
      using d2(4) wf2 t2 that by (rule pending_run)
    then show ?thesis
      using logged_puts_of [OF assms(3), of "Suc (next_id r)"] by (simp add: p0)
  qed
qed


lemma pending_run_state:
  assumes "alive r" and "wf r" and "tasks r w = Some (i, l)" and "w \<noteq> OnRegisterSuccess"
    and "\<forall>e \<in> set evs. quiet w e" and "first_outcome i evs = None"
  shows "alive (run r evs) \<and> tasks (run r evs) w = Some (i, l)"
  using assms
proof (induction evs arbitrary: r)
  case Nil
  then show ?case by simp
next
  case (Cons e evs)
  from Cons.prems(6) have ne: "\<forall>oc. e \<noteq> Settle i oc"
    by (cases e) (auto split: if_splits)
  from Cons.prems(6) have fo: "first_outcome i evs = None"
    by (cases e) (auto split: if_splits)
  from Cons.prems have q: "quiet w e" by simp
  note st = pending_step [OF Cons.prems(1-4) q ne]
  have "alive (run (step r e) evs) \<and> tasks (run (step r e) evs) w = Some (i, l)"
    using st Cons.prems fo by (intro Cons.IH) (simp_all add: step_wf)
  then show ?case by simp
qed

lemma logIn_start:
  "logIn_params a = Inr (e, p) \<Longrightarrow>
   start logInWithCredentials a = Inr (logIn_request e p, [(''email'', e), (''password'', p)])"
  by (simp add: logInWithCredentials_def)

lemma logIn_resume:
  "resume logInWithCredentials l oc =
     [case logIn_result oc of Inr user \<Rightarrow> logInSuccess user | Inl error \<Rightarrow> logInFailure error]"
  by (simp add: logInWithCredentials_def split: sum.splits)

lemma register_params_shape:
  "register_params a = Inr l \<Longrightarrow>
   l = [(''email'', property l ''email''), (''password'', property l ''password''),
        (''firstName'', property l ''firstName''), (''lastName'', property l ''lastName'')]"
  by (auto simp: register_params_def split: sum.splits)

lemma register_start:
  "register_params a = Inr l \<Longrightarrow>
   start registerWithCredentials a =
     Inr (register_request (property l ''email'') (property l ''password'')
            (property l ''firstName'') (property l ''lastName''), l)"
  by (simp add: registerWithCredentials_def)

lemma register_resume:
  assumes "register_params a = Inr l"
  shows "resume registerWithCredentials l oc =
     [case register_result oc of Inr u \<Rightarrow> registerSuccess (JObj l)
      | Inl error \<Rightarrow> registerFailure error]"
  using register_params_shape [OF assms]
  by (simp add: registerWithCredentials_def split: sum.splits)

subsection \<open>The terminal actions of a lane\<close>

lemma observed_dispatch:
  "observed ln (dispatch origin a r) = observed ln r @ (if terminal ln a then [(origin, a)] else [])"
  by (simp add: observed_def)

lemma observed_dispatch_all:
  "observed ln (dispatch_all origin acts r)
     = observed ln r @ map (Pair origin) (filter (terminal ln) acts)"
  by (simp add: observed_def filter_map comp_def)

lemma observed_tasks_update [simp]: "observed ln (r\<lparr>tasks := t\<rparr>) = observed ln r"
  by (simp add: observed_def)

lemma resume_lane:
  assumes "a \<in> set (resume (worker_of w) l oc)"
  shows "terminal ln a \<longleftrightarrow> ln = lane_of w"
  using assms
  by (cases w; cases ln;
      auto simp: logInWithCredentials_def registerWithCredentials_def logInAfterRegister_def
        split: sum.splits)

lemma filter_resume_lane:
  "filter (terminal ln) (resume (worker_of w) l oc)
     = (if ln = lane_of w then resume (worker_of w) l oc else [])"
  by (auto simp: filter_empty_conv resume_lane intro: filter_True)

lemma other_step:
  assumes "alive r" and "wf r" and "w \<noteq> OnRegisterSuccess"
    and "w = OnLogInStart \<Longrightarrow> tasks r OnRegisterStart = None \<and> tasks r OnRegisterSuccess = None"
    and "calm (lane_of w) e"
    and "\<And>j oc l. e = Settle j oc \<Longrightarrow> tasks r w \<noteq> Some (j, l)"
  shows "alive (step r e) \<and> tasks (step r e) w = tasks r w
         \<and> (w = OnLogInStart \<longrightarrow>
              tasks (step r e) OnRegisterStart = None \<and> tasks (step r e) OnRegisterSuccess = None)
         \<and> observed (lane_of w) (step r e) = observed (lane_of w) r"
proof (cases e)
  case (Dispatch a)
  show ?thesis
  proof (cases w)
    case OnLogInStart
    with assms(5) Dispatch have c: "\<not> crashes a" by (auto simp: crashes_def)
    with assms(1) have al: "alive (dispatch None a r)" by (simp add: dispatch_alive)
    from assms(5) Dispatch OnLogInStart
    have "tasks (dispatch None a r) OnLogInStart = tasks r OnLogInStart"
      and "tasks (dispatch None a r) OnRegisterStart = tasks r OnRegisterStart"
      and "tasks (dispatch None a r) OnRegisterSuccess = tasks r OnRegisterSuccess"
      using al by (simp_all add: dispatch_tasks_other)
    with assms(4,5) Dispatch OnLogInStart al show ?thesis
      by (simp add: observed_dispatch)
  next
    case OnRegisterStart
    with assms(5) Dispatch have c: "\<not> crashes a" by simp
    with assms(1) have al: "alive (dispatch None a r)" by (simp add: dispatch_alive)
    from assms(5) Dispatch OnRegisterStart
    have "tasks (dispatch None a r) OnRegisterStart = tasks r OnRegisterStart"
      using al by (simp add: dispatch_tasks_other)
    with assms(5) Dispatch OnRegisterStart al show ?thesis
      by (simp add: observed_dispatch)
  next
    case OnRegisterSuccess
    with assms(3) show ?thesis by simp
  qed
next
  case (Settle j oc)
  show ?thesis
  proof (cases "current r j")
    case None
    with assms Settle show ?thesis by (simp add: settle_def)
  next
    case (Some p)
    obtain w' l' where p: "p = (w', l')" by (cases p)
    with Some have t: "tasks r w' = Some (j, l')" by (simp add: current_Some)
    with assms(6) [OF Settle] have ww: "w' \<noteq> w" by auto
    have reg: "w = OnRegisterStart"
      using assms(3,4) t ww by (cases w; cases w') auto
    then have lw': "lane_of w' = Login" using ww by (cases w') auto
    let ?r = "r\<lparr>tasks := (tasks r)(w' := None)\<rparr>"
    let ?acts = "resume (worker_of w') l' oc"
    have eq: "step r e = dispatch_all (Some j) ?acts ?r"
      using Settle Some p by (simp add: settle_def)
    have al: "alive (dispatch_all (Some j) ?acts ?r)"
      using assms(1) by (auto simp: dispatch_all_alive dest: resume_terminal(1))
    have ty: "\<forall>a \<in> set ?acts. property a ''type'' \<noteq> JStr (pattern w)"
      using reg resume_terminal(3) [of _ w' l' oc] by auto
    have "tasks (dispatch_all (Some j) ?acts ?r) w = tasks ?r w"
      using ty al by (rule dispatch_all_tasks_other)
    with al ww reg lw' show ?thesis
      by (simp add: eq observed_dispatch_all filter_resume_lane)
  qed
qed

lemma lane_run_done:
  assumes "alive r" and "wf r" and "w \<noteq> OnRegisterSuccess"
    and "w = OnLogInStart \<Longrightarrow> tasks r OnRegisterStart = None \<and> tasks r OnRegisterSuccess = None"
    and "tasks r w = None" and "\<forall>e \<in> set cs. calm (lane_of w) e"
  shows "observed (lane_of w) (run r cs) = observed (lane_of w) r"
  using assms
proof (induction cs arbitrary: r)
  case Nil
  show ?case by simp
next
  case (Cons e cs)
  from Cons.prems have c: "calm (lane_of w) e" by simp
  have st: "alive (step r e) \<and> tasks (step r e) w = tasks r w
         \<and> (w = OnLogInStart \<longrightarrow>
              tasks (step r e) OnRegisterStart = None \<and> tasks (step r e) OnRegisterSuccess = None)
         \<and> observed (lane_of w) (step r e) = observed (lane_of w) r"
    using Cons.prems(1-4) c
  proof (rule other_step)
    fix j oc l assume "e = Settle j oc"
    show "tasks r w \<noteq> Some (j, l)" using Cons.prems(5) by simp
  qed
  have "observed (lane_of w) (run (step r e) cs) = observed (lane_of w) (step r e)"
    using st Cons.prems by (intro Cons.IH) (simp_all add: step_wf)
  with st show ?case by simp
qed

lemma lane_run:
  assumes "alive r" and "wf r" and "w \<noteq> OnRegisterSuccess"
    and "w = OnLogInStart \<Longrightarrow> tasks r OnRegisterStart = None \<and> tasks r OnRegisterSuccess = None"
    and "tasks r w = Some (i, l)" and "\<forall>e \<in> set cs. calm (lane_of w) e"
  shows "observed (lane_of w) (run r cs) =
           observed (lane_of w) r @
           (case first_outcome i cs of
              None \<Rightarrow> []
            | Some oc \<Rightarrow> map (Pair (Some i)) (resume (worker_of w) l oc))"
  using assms
proof (induction cs arbitrary: r)
  case Nil
  show ?case by simp
next
  case (Cons e cs)
  from Cons.prems have c: "calm (lane_of w) e" and cs: "\<forall>e \<in> set cs. calm (lane_of w) e"
    by simp_all
  show ?case
  proof (cases "\<exists>oc. e = Settle i oc")
    case True
    then obtain oc where e: "e = Settle i oc" ..
    let ?r = "r\<lparr>tasks := (tasks r)(w := None)\<rparr>"
    let ?acts = "resume (worker_of w) l oc"
    have eq: "settle i oc r = dispatch_all (Some i) ?acts ?r"
      using Cons.prems(2,5) by (rule settle_current)
    note s = settle_pending [OF Cons.prems(1,2,5), of oc]
    have ty: "\<forall>a \<in> set ?acts. property a ''type'' \<noteq> JStr (pattern w') "
      if "w' \<noteq> OnRegisterSuccess \<or> w = OnLogInStart" for w'
      using that Cons.prems(3) resume_terminal(2,3) [of _ w l oc]
      by (cases w'; cases w)
         (auto simp: logInWithCredentials_def registerWithCredentials_def split: sum.splits)
    have tk: "tasks (settle i oc r) w' = tasks ?r w'"
      if "w' \<noteq> OnRegisterSuccess \<or> w = OnLogInStart" for w'
      unfolding eq using ty [OF that] s(5) [unfolded eq] by (rule dispatch_all_tasks_other)
    have t1: "tasks (settle i oc r) w = None"
      using tk [of w] Cons.prems(3) by simp
    have t2: "tasks (settle i oc r) OnRegisterStart = None
              \<and> tasks (settle i oc r) OnRegisterSuccess = None" if "w = OnLogInStart"
      using tk [of OnRegisterStart] tk [of OnRegisterSuccess] that Cons.prems(4) by simp
    have ob: "observed (lane_of w) (settle i oc r)
                = observed (lane_of w) r @ map (Pair (Some i)) ?acts"
      by (simp add: eq observed_dispatch_all filter_resume_lane)
    have "observed (lane_of w) (run (settle i oc r) cs) = observed (lane_of w) (settle i oc r)"
      using s(5) s(6) Cons.prems(3) t2 t1 cs by (rule lane_run_done)
    with ob show ?thesis by (simp add: e)
  next
    case False
    then have ne: "\<And>oc. e \<noteq> Settle i oc" by simp
    have st: "alive (step r e) \<and> tasks (step r e) w = tasks r w
         \<and> (w = OnLogInStart \<longrightarrow>
              tasks (step r e) OnRegisterStart = None \<and> tasks (step r e) OnRegisterSuccess = None)
         \<and> observed (lane_of w) (step r e) = observed (lane_of w) r"
      using Cons.prems(1-4) c
    proof (rule other_step)
      fix j oc l' assume "e = Settle j oc"
      with ne have "j \<noteq> i" by auto
      then show "tasks r w \<noteq> Some (j, l')" using Cons.prems(5) by simp
    qed
    have "observed (lane_of w) (run (step r e) cs) =
           observed (lane_of w) (step r e) @
           (case first_outcome i cs of
              None \<Rightarrow> []
            | Some oc \<Rightarrow> map (Pair (Some i)) (resume (worker_of w) l oc))"
      using st Cons.prems(2-5) cs by (intro Cons.IH) (simp_all add: step_wf)
    moreover have "first_outcome i (e # cs) = first_outcome i cs"
      using ne by (cases e) auto
    ultimately show ?thesis using st by simp
  qed
qed


lemma latest_wins_lane:
  assumes "alive r" and "wf r" and "w \<noteq> OnRegisterSuccess"
    and "w = OnLogInStart \<Longrightarrow> tasks r OnRegisterStart = None \<and> tasks r OnRegisterSuccess = None"
    and "property a1 ''type'' = JStr (pattern w)" and "property a2 ''type'' = JStr (pattern w)"
    and "start (worker_of w) a1 = Inr (q1, l1)" and "start (worker_of w) a2 = Inr (q2, l2)"
    and "\<forall>e \<in> set cs. calm (lane_of w) e"
  shows "observed (lane_of w) (run r (Dispatch a1 # Dispatch a2 # cs)) =
           observed (lane_of w) r @
           (case first_outcome (Suc (next_id r)) cs of
              None \<Rightarrow> []
            | Some oc \<Rightarrow> map (Pair (Some (Suc (next_id r)))) (resume (worker_of w) l2 oc))"
proof -
  let ?r1 = "dispatch None a1 r"
  let ?r2 = "dispatch None a2 ?r1"
  note d1 = dispatch_start [OF assms(1,5,7), where origin = None]
  note d2 = dispatch_start [OF d1(4) assms(6,8), where origin = None]
  have wf2: "wf ?r2" using assms(2) by (simp add: dispatch_wf)
  have t2: "tasks ?r2 w = Some (Suc (next_id r), l2)" using d1 d2 by simp
  have others: "tasks ?r2 OnRegisterStart = None \<and> tasks ?r2 OnRegisterSuccess = None"
    if "w = OnLogInStart"
    using that assms(4) d1(5) [of OnRegisterStart] d1(5) [of OnRegisterSuccess]
      d2(5) [of OnRegisterStart] d2(5) [of OnRegisterSuccess] by simp
  have nt: "\<not> terminal (lane_of w) a1" "\<not> terminal (lane_of w) a2"
    using assms(3,5,6) by (cases w; simp)+
  have "observed (lane_of w) (run ?r2 cs) =
           observed (lane_of w) ?r2 @
           (case first_outcome (Suc (next_id r)) cs of
              None \<Rightarrow> []
            | Some oc \<Rightarrow> map (Pair (Some (Suc (next_id r)))) (resume (worker_of w) l2 oc))"
    using d2(4) wf2 assms(3) others t2 assms(9) by (rule lane_run)
  then show ?thesis using nt by (simp add: observed_dispatch)
qed

text \<open>
  C1, as the spec states it: after a second Start of a lane has superseded the first, exactly
  one terminal action of that lane is ever observed. A registration succeeds and its
  automatic login (task 1) is pending; two \<open>LoginStart\<close> actions follow (tasks 2 and 3), the
  second superseding the first; then the automatic login succeeds and the second login
  fails. Two terminal actions of the login lane reach the store: the watcher on
  \<open>LOG_IN_START\<close> does not cancel the task of the watcher on \<open>REGISTER_SUCCESS\<close>.
\<close>

theorem latest_start_wins_counterexample:
  "observed Login (run init_runner
      [Dispatch (registerStart (JObj [(''email'', JStr ''c@d.com''), (''password'', JStr ''y'')])),
       Settle 0 (Inr (JObj [])),
       Dispatch (logInStart (JObj [(''email'', JStr ''a@b.com''), (''password'', JStr ''x'')])),
       Dispatch (logInStart (JObj [(''email'', JStr ''a@b.com''), (''password'', JStr ''z'')])),
       Settle 1 (Inr (JObj [(''data'', JObj [(''accessToken'', JStr ''t1'')])])),
       Settle 3 (Inl (JStr ''bad password''))])
     = [(Some 1, logInSuccess (JObj [(''token'', JStr ''t1'')])),
        (Some 3, logInFailure (JStr ''bad password''))]
   \<and> length (observed Login (run init_runner
      [Dispatch (registerStart (JObj [(''email'', JStr ''c@d.com''), (''password'', JStr ''y'')])),
       Settle 0 (Inr (JObj [])),
       Dispatch (logInStart (JObj [(''email'', JStr ''a@b.com''), (''password'', JStr ''x'')])),
       Dispatch (logInStart (JObj [(''email'', JStr ''a@b.com''), (''password'', JStr ''z'')])),
       Settle 1 (Inr (JObj [(''data'', JObj [(''accessToken'', JStr ''t1'')])])),
       Settle 3 (Inl (JStr ''bad password''))])) = 2"
  by code_simp

text \<open>
  C1, amended. In any reachable state in which the sagas run, let two Start actions of one
  lane be dispatched one after the other, so that the first invocation (task \<open>next_id r\<close>)
  is still suspended on its request when the second (task \<open>Suc (next_id r)\<close>) is forked;
  both requests have been issued. Then, whatever events follow (\<open>evs1\<close>, \<open>evs2\<close>: any
  dispatches, any requests settling in any order), the superseded invocation never puts an
  action. As long as no third Start of the lane is dispatched and the saga tree is not
  aborted (\<open>qs\<close>, \<open>qs'\<close>), the second invocation puts nothing until its request settles
  and then exactly one action, the terminal action for that outcome.

  For the register lane that action is the only terminal action of the lane that reaches
  the store from then on (\<open>cs'\<close>: no further \<open>RegisterStart\<close>, no terminal action of the
  lane dispatched from outside). For the login lane it is the only one provided no
  registration and no automatic login is pending when the Starts are dispatched and none
  begins afterwards (\<open>cs\<close>): the automatic login after a registration is a task of another
  watcher, which a \<open>LoginStart\<close> does not cancel.
\<close>

theorem latest_start_wins:
  assumes "r = run init_runner evs" and "alive r"
    and "logIn_params (logInStart c1) = Inr (e1, p1)"
    and "logIn_params (logInStart c2) = Inr (e2, p2)"
    and "register_params (registerStart d1) = Inr l1"
    and "register_params (registerStart d2) = Inr l2"
    and "\<forall>e \<in> set qs. quiet OnLogInStart e"
    and "\<forall>e \<in> set qs'. quiet OnRegisterStart e"
  shows
    "requests (run r [Dispatch (logInStart c1), Dispatch (logInStart c2)])
       = requests r @ [(next_id r, logIn_request e1 p1), (Suc (next_id r), logIn_request e2 p2)]
     \<and> puts_of (next_id r) (run r (Dispatch (logInStart c1) # Dispatch (logInStart c2) # evs1)) = []
     \<and> puts_of (Suc (next_id r)) (run r (Dispatch (logInStart c1) # Dispatch (logInStart c2) # qs))
       = (case first_outcome (Suc (next_id r)) qs of
            None \<Rightarrow> []
          | Some oc \<Rightarrow> [case logIn_result oc of
                         Inr user \<Rightarrow> logInSuccess user | Inl error \<Rightarrow> logInFailure error])
     \<and> puts_of (next_id r)
         (run r (Dispatch (registerStart d1) # Dispatch (registerStart d2) # evs2)) = []
     \<and> puts_of (Suc (next_id r))
         (run r (Dispatch (registerStart d1) # Dispatch (registerStart d2) # qs'))
       = (case first_outcome (Suc (next_id r)) qs' of
            None \<Rightarrow> []
          | Some oc \<Rightarrow> [case register_result oc of
                         Inr u \<Rightarrow> registerSuccess (JObj l2) | Inl error \<Rightarrow> registerFailure error])
     \<and> ((\<forall>e \<in> set cs'. calm Register e) \<longrightarrow>
          observed Register
            (run r (Dispatch (registerStart d1) # Dispatch (registerStart d2) # cs'))
          = observed Register r @
            (case first_outcome (Suc (next_id r)) cs' of
               None \<Rightarrow> []
             | Some oc \<Rightarrow> [(Some (Suc (next_id r)),
                            case register_result oc of
                              Inr u \<Rightarrow> registerSuccess (JObj l2)
                            | Inl error \<Rightarrow> registerFailure error)]))
     \<and> (tasks r OnRegisterStart = None \<longrightarrow> tasks r OnRegisterSuccess = None \<longrightarrow>
          (\<forall>e \<in> set cs. calm Login e) \<longrightarrow>
          observed Login (run r (Dispatch (logInStart c1) # Dispatch (logInStart c2) # cs))
          = observed Login r @
            (case first_outcome (Suc (next_id r)) cs of
               None \<Rightarrow> []
             | Some oc \<Rightarrow> [(Some (Suc (next_id r)),
                            case logIn_result oc of
                              Inr user \<Rightarrow> logInSuccess user
                            | Inl error \<Rightarrow> logInFailure error)]))"
proof -
  have wf: "wf r" and lg: "logged r"
    by (simp_all add: assms(1) reachable_wf reachable_logged)
  have ty: "property (logInStart c1) ''type'' = JStr (pattern OnLogInStart)"
    "property (logInStart c2) ''type'' = JStr (pattern OnLogInStart)"
    "property (registerStart d1) ''type'' = JStr (pattern OnRegisterStart)"
    "property (registerStart d2) ''type'' = JStr (pattern OnRegisterStart)"
    by simp_all
  have st: "start (worker_of OnLogInStart) (logInStart c1)
              = Inr (logIn_request e1 p1, [(''email'', e1), (''password'', p1)])"
    "start (worker_of OnLogInStart) (logInStart c2)
              = Inr (logIn_request e2 p2, [(''email'', e2), (''password'', p2)])"
    "start (worker_of OnRegisterStart) (registerStart d1)
              = Inr (register_request (property l1 ''email'') (property l1 ''password'')
                       (property l1 ''firstName'') (property l1 ''lastName''), l1)"
    "start (worker_of OnRegisterStart) (registerStart d2)
              = Inr (register_request (property l2 ''email'') (property l2 ''password'')
                       (property l2 ''firstName'') (property l2 ''lastName''), l2)"
    using assms(3-6) by (simp_all add: logIn_start register_start)
  note login = latest_wins [OF assms(2) wf lg ty(1,2) st(1,2)]
  note register = latest_wins [OF assms(2) wf lg ty(3,4) st(3,4)]
  have lane_register:
    "observed Register (run r (Dispatch (registerStart d1) # Dispatch (registerStart d2) # cs'))
       = observed Register r @
         (case first_outcome (Suc (next_id r)) cs' of
            None \<Rightarrow> []
          | Some oc \<Rightarrow> [(Some (Suc (next_id r)),
                         case register_result oc of
                           Inr u \<Rightarrow> registerSuccess (JObj l2)
                         | Inl error \<Rightarrow> registerFailure error)])"
    if "\<forall>e \<in> set cs'. calm Register e"
    using latest_wins_lane [OF assms(2) wf _ _ ty(3,4) st(3,4), of cs'] that
    by (simp add: register_resume [OF assms(6)] split: option.splits)
  have lane_login:
    "observed Login (run r (Dispatch (logInStart c1) # Dispatch (logInStart c2) # cs))
       = observed Login r @
         (case first_outcome (Suc (next_id r)) cs of
            None \<Rightarrow> []
          | Some oc \<Rightarrow> [(Some (Suc (next_id r)),
                         case logIn_result oc of
                           Inr user \<Rightarrow> logInSuccess user
                         | Inl error \<Rightarrow> logInFailure error)])"
    if "tasks r OnRegisterStart = None" and "tasks r OnRegisterSuccess = None"
      and "\<forall>e \<in> set cs. calm Login e"
    using latest_wins_lane [OF assms(2) wf _ _ ty(1,2) st(1,2), of cs] that
    by (simp add: logIn_resume split: option.splits)
  have per_task:
    "requests (run r [Dispatch (logInStart c1), Dispatch (logInStart c2)])
       = requests r @ [(next_id r, logIn_request e1 p1), (Suc (next_id r), logIn_request e2 p2)]
     \<and> puts_of (next_id r) (run r (Dispatch (logInStart c1) # Dispatch (logInStart c2) # evs1)) = []
     \<and> puts_of (Suc (next_id r)) (run r (Dispatch (logInStart c1) # Dispatch (logInStart c2) # qs))
       = (case first_outcome (Suc (next_id r)) qs of
            None \<Rightarrow> []
          | Some oc \<Rightarrow> [case logIn_result oc of
                         Inr user \<Rightarrow> logInSuccess user | Inl error \<Rightarrow> logInFailure error])
     \<and> puts_of (next_id r)
         (run r (Dispatch (registerStart d1) # Dispatch (registerStart d2) # evs2)) = []
     \<and> puts_of (Suc (next_id r))
         (run r (Dispatch (registerStart d1) # Dispatch (registerStart d2) # qs'))
       = (case first_outcome (Suc (next_id r)) qs' of
            None \<Rightarrow> []
          | Some oc \<Rightarrow> [case register_result oc of
                         Inr u \<Rightarrow> registerSuccess (JObj l2) | Inl error \<Rightarrow> registerFailure error])"
    using login(1) login(2) [of evs1] login(3) [OF _ assms(7)]
      register(2) [of evs2] register(3) [OF _ assms(8)]
    by (simp add: logIn_resume register_resume [OF assms(6)] split: option.splits)
  show ?thesis
    using per_task lane_register lane_login by blast
qed

theorem latest_start_wins_witness:
  "puts_of 0 (run init_runner
      [Dispatch (logInStart (JObj [(''email'', JStr ''a@b.com''), (''password'', JStr ''x'')])),
       Dispatch (logInStart (JObj [(''email'', JStr ''a@b.com''), (''password'', JStr ''z'')])),
       Settle 0 (Inr (JObj [(''data'', JObj [(''accessToken'', JStr ''t1'')])])),
       Settle 1 (Inl (JStr ''bad password''))]) = []
   \<and> puts_of 1 (run init_runner
      [Dispatch (logInStart (JObj [(''email'', JStr ''a@b.com''), (''password'', JStr ''x'')])),
       Dispatch (logInStart (JObj [(''email'', JStr ''a@b.com''), (''password'', JStr ''z'')])),
       Settle 0 (Inr (JObj [(''data'', JObj [(''accessToken'', JStr ''t1'')])])),
       Settle 1 (Inl (JStr ''bad password''))]) = [logInFailure (JStr ''bad password'')]
   \<and> puts_of 0 (run init_runner
      [Dispatch (registerStart (JObj [(''email'', JStr ''c@d.com'')])),
       Dispatch (registerStart (JObj [(''email'', JStr ''e@f.com'')])),
       Settle 1 (Inl (JStr ''duplicate email'')),
       Settle 0 (Inr (JObj []))]) = []
   \<and> puts_of 1 (run init_runner
      [Dispatch (registerStart (JObj [(''email'', JStr ''c@d.com'')])),
       Dispatch (registerStart (JObj [(''email'', JStr ''e@f.com'')])),
       Settle 1 (Inl (JStr ''duplicate email'')),
       Settle 0 (Inr (JObj []))]) = [registerFailure (JStr ''duplicate email'')]
   \<and> observed Register (run init_runner
      [Dispatch (registerStart (JObj [(''email'', JStr ''c@d.com'')])),
       Dispatch (registerStart (JObj [(''email'', JStr ''e@f.com'')])),
       Settle 1 (Inl (JStr ''duplicate email'')),
       Settle 0 (Inr (JObj []))]) = [(Some 1, registerFailure (JStr ''duplicate email''))]
   \<and> observed Login (run init_runner
      [Dispatch (logInStart (JObj [(''email'', JStr ''a@b.com''), (''password'', JStr ''x'')])),
       Dispatch (logInStart (JObj [(''email'', JStr ''a@b.com''), (''password'', JStr ''z'')])),
       Settle 0 (Inr (JObj [(''data'', JObj [(''accessToken'', JStr ''t1'')])])),
       Settle 1 (Inl (JStr ''bad password''))]) = [(Some 1, logInFailure (JStr ''bad password''))]"
proof -
  let ?login = "[Settle 0 (Inr (JObj [(''data'', JObj [(''accessToken'', JStr ''t1'')])])),
                 Settle 1 (Inl (JStr ''bad password''))]"
  let ?register = "[Settle 1 (Inl (JStr ''duplicate email'')), Settle 0 (Inr (JObj []))]"
  have a: "alive (run init_runner [])" by code_simp
  have b: "logIn_params (logInStart (JObj [(''email'', JStr ''a@b.com''), (''password'', JStr ''x'')]))
            = Inr (JStr ''a@b.com'', JStr ''x'')"
    "logIn_params (logInStart (JObj [(''email'', JStr ''a@b.com''), (''password'', JStr ''z'')]))
            = Inr (JStr ''a@b.com'', JStr ''z'')" by code_simp+
  have c: "register_params (registerStart (JObj [(''email'', JStr ''c@d.com'')]))
            = Inr [(''email'', JStr ''c@d.com''), (''password'', JUndefined),
                   (''firstName'', JUndefined), (''lastName'', JUndefined)]"
    "register_params (registerStart (JObj [(''email'', JStr ''e@f.com'')]))
            = Inr [(''email'', JStr ''e@f.com''), (''password'', JUndefined),
                   (''firstName'', JUndefined), (''lastName'', JUndefined)]" by code_simp+
  have q: "\<forall>e \<in> set ?login. quiet OnLogInStart e" "\<forall>e \<in> set ?register. quiet OnRegisterStart e"
    by simp_all
  have n: "next_id init_runner = 0" "tasks init_runner OnRegisterStart = None"
    "tasks init_runner OnRegisterSuccess = None" "observed Login init_runner = []"
    "observed Register init_runner = []"
    by (simp_all add: init_runner_def observed_def)
  show ?thesis
    using latest_start_wins [OF refl a b c q, where ?evs1.0 = ?login and ?evs2.0 = ?register
        and cs = ?login and cs' = ?register]
    by (simp add: n logIn_result_def register_result_def)
qed


subsection \<open>Every start that is not superseded ends in one terminal action\<close>

lemma started_then_settled:
  assumes "alive r" and "wf r"
    and "property a ''type'' = JStr (pattern w)" and "start (worker_of w) a = Inr (q, l)"
    and "w \<noteq> OnRegisterSuccess"
    and "\<forall>e \<in> set qs. quiet w e" and "first_outcome (next_id r) qs = None"
  shows "dispatched (run r (Dispatch a # qs @ [Settle (next_id r) oc]))
           = dispatched (run r (Dispatch a # qs))
             @ map (Pair (Some (next_id r))) (resume (worker_of w) l oc)"
    and "store (run r (Dispatch a # qs @ [Settle (next_id r) oc]))
           = reduce_all (store (run r (Dispatch a # qs))) (resume (worker_of w) l oc)"
    and "alive (run r (Dispatch a # qs @ [Settle (next_id r) oc]))"
proof -
  let ?r1 = "dispatch None a r"
  note d = dispatch_start [OF assms(1,3,4), where origin = None]
  have wf1: "wf ?r1" using assms(2) by (rule dispatch_wf)
  have p: "alive (run ?r1 qs) \<and> tasks (run ?r1 qs) w = Some (next_id r, l)"
    using d(4) wf1 d(1) assms(5,6,7) by (rule pending_run_state)
  have wf2: "wf (run ?r1 qs)" using wf1 by (rule run_wf)
  note s = settle_pending [OF conjunct1 [OF p] wf2 conjunct2 [OF p], of oc]
  have "run r (Dispatch a # qs @ [Settle (next_id r) oc])
          = run (run r (Dispatch a # qs)) [Settle (next_id r) oc]"
    unfolding run_append [symmetric] by simp
  then have eq: "run r (Dispatch a # qs @ [Settle (next_id r) oc])
              = settle (next_id r) oc (run ?r1 qs)"
    by simp
  show "dispatched (run r (Dispatch a # qs @ [Settle (next_id r) oc]))
           = dispatched (run r (Dispatch a # qs))
             @ map (Pair (Some (next_id r))) (resume (worker_of w) l oc)"
    using s(2) unfolding eq by simp
  show "store (run r (Dispatch a # qs @ [Settle (next_id r) oc]))
           = reduce_all (store (run r (Dispatch a # qs))) (resume (worker_of w) l oc)"
    using s(3) unfolding eq by simp
  show "alive (run r (Dispatch a # qs @ [Settle (next_id r) oc]))"
    using s(5) unfolding eq by simp
qed

text \<open>
  C3. In any reachable state in which the sagas run, a Start action with a credentials
  payload forks a task; if it is not superseded before its request settles (\<open>qs\<close>, \<open>qs'\<close>
  hold no further Start of the lane), then the settling of the request, whatever its outcome,
  dispatches exactly one action: the success action when the API call succeeds, the failure
  action carrying the error when it fails. A rejection \<open>err\<close> of the request becomes
  \<open>LoginFailure(err)\<close>, respectively \<open>RegisterFailure(err)\<close>. The saga tree is still
  running afterwards: no exception has escaped.
\<close>

theorem failure_becomes_failure_action:
  assumes "r = run init_runner evs" and "alive r"
    and "logIn_params (logInStart c) = Inr (e, p)"
    and "register_params (registerStart d) = Inr l"
    and "\<forall>e \<in> set qs. quiet OnLogInStart e" and "first_outcome (next_id r) qs = None"
    and "\<forall>e \<in> set qs'. quiet OnRegisterStart e" and "first_outcome (next_id r) qs' = None"
  shows
    "dispatched (run r (Dispatch (logInStart c) # qs @ [Settle (next_id r) oc]))
       = dispatched (run r (Dispatch (logInStart c) # qs))
         @ [(Some (next_id r),
             case logIn_result oc of
               Inr user \<Rightarrow> logInSuccess user | Inl error \<Rightarrow> logInFailure error)]
     \<and> dispatched (run r (Dispatch (logInStart c) # qs @ [Settle (next_id r) (Inl err)]))
       = dispatched (run r (Dispatch (logInStart c) # qs))
         @ [(Some (next_id r), logInFailure err)]
     \<and> alive (run r (Dispatch (logInStart c) # qs @ [Settle (next_id r) oc]))
     \<and> dispatched (run r (Dispatch (registerStart d) # qs' @ [Settle (next_id r) oc]))
       = dispatched (run r (Dispatch (registerStart d) # qs'))
         @ [(Some (next_id r),
             case register_result oc of
               Inr u \<Rightarrow> registerSuccess (JObj l) | Inl error \<Rightarrow> registerFailure error)]
     \<and> dispatched (run r (Dispatch (registerStart d) # qs' @ [Settle (next_id r) (Inl err)]))
       = dispatched (run r (Dispatch (registerStart d) # qs'))
         @ [(Some (next_id r), registerFailure err)]
     \<and> alive (run r (Dispatch (registerStart d) # qs' @ [Settle (next_id r) oc]))"
proof -
  have wf: "wf r" by (simp add: assms(1) reachable_wf)
  have ty: "property (logInStart c) ''type'' = JStr (pattern OnLogInStart)"
    "property (registerStart d) ''type'' = JStr (pattern OnRegisterStart)"
    by simp_all
  have st: "start (worker_of OnLogInStart) (logInStart c)
              = Inr (logIn_request e p, [(''email'', e), (''password'', p)])"
    "start (worker_of OnRegisterStart) (registerStart d)
              = Inr (register_request (property l ''email'') (property l ''password'')
                       (property l ''firstName'') (property l ''lastName''), l)"
    using assms(3,4) by (simp_all add: logIn_start register_start)
  note login = started_then_settled [OF assms(2) wf ty(1) st(1) _ assms(5,6)]
  note register = started_then_settled [OF assms(2) wf ty(2) st(2) _ assms(7,8)]
  show ?thesis
    using login(1) [of oc] login(1) [of "Inl err"] login(3) [of oc]
      register(1) [of oc] register(1) [of "Inl err"] register(3) [of oc]
    by (simp add: logIn_resume register_resume [OF assms(4)] logIn_result_def
          register_result_def)
qed

theorem failure_becomes_failure_action_witness:
  "dispatched (run init_runner
      [Dispatch (logInStart (JObj [(''email'', JStr ''a@b.com''), (''password'', JStr ''x'')])),
       Dispatch logOut, Settle 0 (Inl (JStr ''network error''))])
     = [(None, logInStart (JObj [(''email'', JStr ''a@b.com''), (''password'', JStr ''x'')])),
        (None, logOut), (Some 0, logInFailure (JStr ''network error''))]
   \<and> alive (run init_runner
      [Dispatch (logInStart (JObj [(''email'', JStr ''a@b.com''), (''password'', JStr ''x'')])),
       Dispatch logOut, Settle 0 (Inl (JStr ''network error''))])
   \<and> dispatched (run init_runner
      [Dispatch (registerStart (JObj [(''email'', JStr ''c@d.com'')])),
       Settle 7 (Inr JNull), Settle 0 (Inl (JStr ''network error''))])
     = [(None, registerStart (JObj [(''email'', JStr ''c@d.com'')])),
        (Some 0, registerFailure (JStr ''network error''))]"
proof -
  have a: "alive (run init_runner [])" by code_simp
  have b: "logIn_params (logInStart (JObj [(''email'', JStr ''a@b.com''), (''password'', JStr ''x'')]))
            = Inr (JStr ''a@b.com'', JStr ''x'')" by code_simp
  have c: "register_params (registerStart (JObj [(''email'', JStr ''c@d.com'')]))
            = Inr [(''email'', JStr ''c@d.com''), (''password'', JUndefined),
                   (''firstName'', JUndefined), (''lastName'', JUndefined)]" by code_simp
  have d: "\<forall>e \<in> set [Dispatch logOut]. quiet OnLogInStart e" by code_simp
  have e: "first_outcome (next_id (run init_runner [])) [Dispatch logOut] = None" by code_simp
  have f: "\<forall>e \<in> set [Settle 7 (Inr JNull)]. quiet OnRegisterStart e" by simp
  have g: "first_outcome (next_id (run init_runner [])) [Settle 7 (Inr JNull)] = None"
    by code_simp
  have n: "next_id init_runner = 0" by (simp add: init_runner_def)
  have h: "dispatched (run init_runner
      [Dispatch (logInStart (JObj [(''email'', JStr ''a@b.com''), (''password'', JStr ''x'')])),
       Dispatch logOut])
     = [(None, logInStart (JObj [(''email'', JStr ''a@b.com''), (''password'', JStr ''x'')])),
        (None, logOut)]" by code_simp
  have k: "dispatched (run init_runner
      [Dispatch (registerStart (JObj [(''email'', JStr ''c@d.com'')])), Settle 7 (Inr JNull)])
     = [(None, registerStart (JObj [(''email'', JStr ''c@d.com'')]))]" by code_simp
  show ?thesis
    using failure_becomes_failure_action [OF refl a b c d e f g,
        of "Inl (JStr ''network error'')" "JStr ''network error''"] h k
    by (simp add: n logIn_result_def register_result_def)
qed


subsection \<open>Login after registration\<close>

lemma logIn_params_payload:
  "property a ''payload'' = property b ''payload'' \<Longrightarrow> logIn_params a = logIn_params b"
  unfolding logIn_params_def by (erule ssubst) (rule refl)

lemma logInAfterRegister_start:
  "start logInAfterRegister a = start logInWithCredentials a"
  by (cases "property a ''payload''")
     (simp_all add: logInAfterRegister_def logInWithCredentials_def logIn_params_def)

lemma logInAfterRegister_resume: "resume logInAfterRegister = resume logInWithCredentials"
  by (simp add: logInAfterRegister_def)

lemma logInWithCredentials_start_payload:
  "property a ''payload'' = property b ''payload'' \<Longrightarrow>
   start logInWithCredentials a = start logInWithCredentials b"
  using logIn_params_payload [of a b] by (simp add: logInWithCredentials_def)

lemma auto_login:
  assumes "alive r" and "wf r"
    and "property a ''type'' = JStr REGISTER_SUCCESS"
    and "logIn_params a = Inr (e, p)"
  shows "requests (dispatch origin a r) = requests r @ [(next_id r, logIn_request e p)]"
    and "dispatched (settle (next_id r) oc (dispatch origin a r))
           = dispatched r @ [(origin, a),
               (Some (next_id r), case logIn_result oc of
                  Inr user \<Rightarrow> logInSuccess user | Inl error \<Rightarrow> logInFailure error)]"
    and "store (settle (next_id r) oc (dispatch origin a r))
           = authReducer (Some (authReducer (Some (store r)) a))
               (case logIn_result oc of
                  Inr user \<Rightarrow> logInSuccess user | Inl error \<Rightarrow> logInFailure error)"
proof -
  have ty: "property a ''type'' = JStr (pattern OnRegisterSuccess)"
    using assms(3) by simp
  have st: "start (worker_of OnRegisterSuccess) a
              = Inr (logIn_request e p, [(''email'', e), (''password'', p)])"
    using assms(4) by (simp add: logInAfterRegister_start logIn_start)
  note d = dispatch_start [OF assms(1) ty st, where origin = origin]
  have wf1: "wf (dispatch origin a r)" using assms(2) by (rule dispatch_wf)
  note s = settle_pending [OF d(4) wf1 d(1), of oc]
  show "requests (dispatch origin a r) = requests r @ [(next_id r, logIn_request e p)]"
    by (rule d(3))
  show "dispatched (settle (next_id r) oc (dispatch origin a r))
           = dispatched r @ [(origin, a),
               (Some (next_id r), case logIn_result oc of
                  Inr user \<Rightarrow> logInSuccess user | Inl error \<Rightarrow> logInFailure error)]"
    using s(2) by (simp add: logInAfterRegister_resume logIn_resume)
  show "store (settle (next_id r) oc (dispatch origin a r))
           = authReducer (Some (authReducer (Some (store r)) a))
               (case logIn_result oc of
                  Inr user \<Rightarrow> logInSuccess user | Inl error \<Rightarrow> logInFailure error)"
    using s(3) by (simp add: logInAfterRegister_resume logIn_resume reduce_all_def)
qed

lemma register_then_auto_login:
  assumes "alive r" and "wf r" and "register_params (registerStart d) = Inr l"
  shows "requests (run r [Dispatch (registerStart d), Settle (next_id r) (Inr response)])
           = requests r @
             [(next_id r, register_request (property l ''email'') (property l ''password'')
                            (property l ''firstName'') (property l ''lastName'')),
              (Suc (next_id r), logIn_request (property l ''email'') (property l ''password''))]"
proof -
  let ?r1 = "dispatch None (registerStart d) r"
  let ?r1' = "?r1\<lparr>tasks := (tasks ?r1)(OnRegisterStart := None)\<rparr>"
  have ty: "property (registerStart d) ''type'' = JStr (pattern OnRegisterStart)" by simp
  have st: "start (worker_of OnRegisterStart) (registerStart d)
              = Inr (register_request (property l ''email'') (property l ''password'')
                       (property l ''firstName'') (property l ''lastName''), l)"
    using assms(3) by (simp add: register_start)
  note d = dispatch_start [OF assms(1) ty st, where origin = None]
  have wf1: "wf ?r1" using assms(2) by (rule dispatch_wf)
  have "settle (next_id r) (Inr response) ?r1
          = dispatch_all (Some (next_id r))
              (resume (worker_of OnRegisterStart) l (Inr response)) ?r1'"
    using wf1 d(1) by (rule settle_current)
  then have eq: "settle (next_id r) (Inr response) ?r1
          = dispatch (Some (next_id r)) (registerSuccess (JObj l)) ?r1'"
    by (simp add: register_resume [OF assms(3)] register_result_def)
  have al: "alive ?r1'" using d(4) by simp
  have wf1': "wf ?r1'" using wf1 by (rule wf_finish)
  have ty': "property (registerSuccess (JObj l)) ''type'' = JStr REGISTER_SUCCESS" by simp
  have p: "logIn_params (registerSuccess (JObj l))
             = Inr (property l ''email'', property l ''password'')"
    by (simp add: logIn_params_def)
  have "requests (dispatch (Some (next_id r)) (registerSuccess (JObj l)) ?r1')
          = requests ?r1' @
            [(next_id ?r1', logIn_request (property l ''email'') (property l ''password''))]"
    using al wf1' ty' p by (rule auto_login(1))
  then show ?thesis
    using d(2,3) by (simp add: eq)
qed

text \<open>
  C4. \<open>logInAfterRegister\<close> on a \<open>RegisterSuccess\<close> action is the login worker on a
  \<open>LoginStart\<close> action with the same payload: it starts the same way and resumes the same
  way. In any reachable state in which the sagas run, dispatching \<open>RegisterSuccess(c)\<close>
  issues exactly one request, the login request with the email and password of \<open>c\<close>, the
  one that dispatching \<open>LoginStart(c)\<close> issues; and when the login call then succeeds
  with \<open>user\<close>, \<open>LoginSuccess(user)\<close> is dispatched and \<open>currentUser\<close> is \<open>user\<close>.
  The last conjunct follows a registration through: after \<open>RegisterStart(d)\<close> and a
  successful register call, the login request with the email and password of \<open>d\<close> has been
  issued.
\<close>

theorem register_success_logs_in:
  assumes "r = run init_runner evs" and "alive r"
    and "logIn_params (registerSuccess c) = Inr (e, p)"
    and "logIn_result oc = Inr user"
    and "register_params (registerStart d) = Inr l"
  shows
    "start logInAfterRegister (registerSuccess c) = start logInWithCredentials (logInStart c)
     \<and> resume logInAfterRegister = resume logInWithCredentials
     \<and> requests (run r [Dispatch (registerSuccess c)])
         = requests r @ [(next_id r, logIn_request e p)]
     \<and> requests (run r [Dispatch (logInStart c)])
         = requests r @ [(next_id r, logIn_request e p)]
     \<and> dispatched (run r [Dispatch (registerSuccess c), Settle (next_id r) oc])
         = dispatched r @ [(None, registerSuccess c), (Some (next_id r), logInSuccess user)]
     \<and> property (store (run r [Dispatch (registerSuccess c), Settle (next_id r) oc]))
         ''currentUser'' = user
     \<and> requests (run r [Dispatch (registerStart d), Settle (next_id r) (Inr response)])
         = requests r @
           [(next_id r, register_request (property l ''email'') (property l ''password'')
                          (property l ''firstName'') (property l ''lastName'')),
            (Suc (next_id r), logIn_request (property l ''email'') (property l ''password''))]"
proof -
  have wf: "wf r" by (simp add: assms(1) reachable_wf)
  have eq: "start logInAfterRegister (registerSuccess c) = start logInWithCredentials (logInStart c)"
    unfolding logInAfterRegister_start
    by (rule logInWithCredentials_start_payload) simp
  have p: "logIn_params (logInStart c) = Inr (e, p)"
    using assms(3) logIn_params_payload [of "logInStart c" "registerSuccess c"] by simp
  have st: "start (worker_of OnLogInStart) (logInStart c)
              = Inr (logIn_request e p, [(''email'', e), (''password'', p)])"
    using p by (simp add: logIn_start)
  have ty: "property (logInStart c) ''type'' = JStr (pattern OnLogInStart)" by simp
  note d = dispatch_start [OF assms(2) ty st, where origin = None]
  have ty': "property (registerSuccess c) ''type'' = JStr REGISTER_SUCCESS" by simp
  note a = auto_login [OF assms(2) wf ty' assms(3), where origin = None]
  show ?thesis
    using eq d(3) a(1) a(2) [of oc] a(3) [of oc] assms(4)
      register_then_auto_login [OF assms(2) wf assms(5), of response]
    by (simp add: logInAfterRegister_resume authReducer_currentUser)
qed

theorem register_success_logs_in_witness:
  "requests (run init_runner
      [Dispatch (registerSuccess (JObj [(''email'', JStr ''c@d.com''), (''password'', JStr ''y''),
          (''firstName'', JStr ''A''), (''lastName'', JStr ''B'')]))])
     = [(0, logIn_request (JStr ''c@d.com'') (JStr ''y''))]
   \<and> property (store (run init_runner
      [Dispatch (registerSuccess (JObj [(''email'', JStr ''c@d.com''), (''password'', JStr ''y''),
          (''firstName'', JStr ''A''), (''lastName'', JStr ''B'')])),
       Settle 0 (Inr (JObj [(''data'', JObj [(''accessToken'', JStr ''t1''),
          (''user'', JObj [(''email'', JStr ''c@d.com''), (''id'', JNum 1)])])]))]))
      ''currentUser''
     = JObj [(''token'', JStr ''t1''), (''email'', JStr ''c@d.com''), (''id'', JNum 1)]
   \<and> requests (run init_runner
      [Dispatch (registerStart (JObj [(''email'', JStr ''c@d.com''), (''password'', JStr ''y''),
          (''firstName'', JStr ''A''), (''lastName'', JStr ''B'')])),
       Settle 0 (Inr (JObj []))])
     = [(0, register_request (JStr ''c@d.com'') (JStr ''y'') (JStr ''A'') (JStr ''B'')),
        (1, logIn_request (JStr ''c@d.com'') (JStr ''y''))]"
proof -
  have a: "alive (run init_runner [])" by code_simp
  have b: "logIn_params (registerSuccess (JObj [(''email'', JStr ''c@d.com''),
             (''password'', JStr ''y''), (''firstName'', JStr ''A''), (''lastName'', JStr ''B'')]))
            = Inr (JStr ''c@d.com'', JStr ''y'')" by code_simp
  have c: "logIn_result (Inr (JObj [(''data'', JObj [(''accessToken'', JStr ''t1''),
             (''user'', JObj [(''email'', JStr ''c@d.com''), (''id'', JNum 1)])])]))
            = Inr (JObj [(''token'', JStr ''t1''), (''email'', JStr ''c@d.com''), (''id'', JNum 1)])"
    by code_simp
  have d: "register_params (registerStart (JObj [(''email'', JStr ''c@d.com''),
             (''password'', JStr ''y''), (''firstName'', JStr ''A''), (''lastName'', JStr ''B'')]))
            = Inr [(''email'', JStr ''c@d.com''), (''password'', JStr ''y''),
                   (''firstName'', JStr ''A''), (''lastName'', JStr ''B'')]" by code_simp
  have n: "next_id init_runner = 0" "requests init_runner = []"
    by (simp_all add: init_runner_def)
  show ?thesis
    using register_success_logs_in [OF refl a b c d, of "JObj []"] by (simp add: n)
qed

subsection \<open>The failed registration scenario\<close>

text \<open>
  C7, as the spec states it: after \<open>RegisterStart\<close> with the credentials of the scenario
  and a register call that fails with \<open>"duplicate email"\<close>, the state has
  \<open>registerSuccess\<close> equal to \<open>false\<close>. The state has no \<open>registerSuccess\<close> property.
\<close>

theorem register_failure_scenario_counterexample:
  "property (store (run init_runner
      [Dispatch (registerStart (JObj [(''email'', JStr ''c@d.com''), (''password'', JStr ''y''),
          (''firstName'', JStr ''A''), (''lastName'', JStr ''B'')])),
       Settle 0 (Inl (JStr ''duplicate email''))])) ''registerSuccess'' \<noteq> JBool False"
  by code_simp

text \<open>
  C7, amended: in that scenario one register request is issued with the four credentials,
  and the final state is \<open>{currentUser: null, error: "duplicate email"}\<close>:
  \<open>error\<close> is \<open>"duplicate email"\<close> and \<open>registerSuccess\<close> is absent (it reads as
  \<open>undefined\<close>, which is falsy).
\<close>

theorem register_failure_scenario:
  "store (run init_runner
      [Dispatch (registerStart (JObj [(''email'', JStr ''c@d.com''), (''password'', JStr ''y''),
          (''firstName'', JStr ''A''), (''lastName'', JStr ''B'')])),
       Settle 0 (Inl (JStr ''duplicate email''))])
     = [(''currentUser'', JNull), (''error'', JStr ''duplicate email'')]
   \<and> requests (run init_runner
      [Dispatch (registerStart (JObj [(''email'', JStr ''c@d.com''), (''password'', JStr ''y''),
          (''firstName'', JStr ''A''), (''lastName'', JStr ''B'')])),
       Settle 0 (Inl (JStr ''duplicate email''))])
     = [(0, register_request (JStr ''c@d.com'') (JStr ''y'') (JStr ''A'') (JStr ''B''))]
   \<and> property (store (run init_runner
      [Dispatch (registerStart (JObj [(''email'', JStr ''c@d.com''), (''password'', JStr ''y''),
          (''firstName'', JStr ''A''), (''lastName'', JStr ''B'')])),
       Settle 0 (Inl (JStr ''duplicate email''))])) ''error'' = JStr ''duplicate email''
   \<and> property (store (run init_runner
      [Dispatch (registerStart (JObj [(''email'', JStr ''c@d.com''), (''password'', JStr ''y''),
          (''firstName'', JStr ''A''), (''lastName'', JStr ''B'')])),
       Settle 0 (Inl (JStr ''duplicate email''))])) ''registerSuccess'' = JUndefined
   \<and> truthy (property (store (run init_runner
      [Dispatch (registerStart (JObj [(''email'', JStr ''c@d.com''), (''password'', JStr ''y''),
          (''firstName'', JStr ''A''), (''lastName'', JStr ''B'')])),
       Settle 0 (Inl (JStr ''duplicate email''))])) ''registerSuccess'') = False"
  by code_simp

end
